theory Spec2Isabelle
  imports Main "HOL-Library.Char_ord" "HOL-Library.List_Lexorder" "HOL-Library.Sublist"
    "HOL-Library.Multiset"
begin

section \<open>kvdb: a shallow embedding of the loader, the backends and the query dispatcher\<close>

text \<open>
  The development follows \<^verbatim>\<open>main.go\<close> (the pipeline with twelve parser and four writer
  goroutines and the concurrent query dispatcher), the utility file that holds
  \<^verbatim>\<open>copyBytes\<close> and \<^verbatim>\<open>reverse\<close>, the dummy backend, \<^verbatim>\<open>bbolt.go\<close> and \<^verbatim>\<open>badgerdb.go\<close>.

  A Go \<^verbatim>\<open>string\<close> and a \<^verbatim>\<open>[]byte\<close> are byte sequences: both are \<^typ>\<open>string\<close>, a list of
  8-bit characters. A \<^verbatim>\<open>rune\<close> is an \<^typ>\<open>int\<close>; no arithmetic on runes leaves the range of
  \<^verbatim>\<open>int32\<close>. A Go \<^verbatim>\<open>error\<close> value is its message.
\<close>

subsection \<open>Go strings and runes\<close>

type_synonym rune = int

datatype error = Error string

datatype panic = Panic string

definition runeError :: rune where
  "runeError = 0xFFFD"

text \<open>
  The conversion \<^verbatim>\<open>[]rune(s)\<close> decodes UTF-8 as the Go runtime does (\<^verbatim>\<open>decoderune\<close> in
  \<^verbatim>\<open>runtime/utf8.go\<close>): a byte that does not start a well-formed encoding yields
  \<^verbatim>\<open>U+FFFD\<close> and is one byte wide. The masks \<^verbatim>\<open>b & 0x1F\<close>, \<^verbatim>\<open>b & 0x0F\<close>, \<^verbatim>\<open>b & 0x07\<close>,
  \<^verbatim>\<open>b & 0x3F\<close> are written \<open>mod 32\<close>, \<open>mod 16\<close>, \<open>mod 8\<close>, \<open>mod 64\<close>, and the shifts by 6, 12
  and 18 bits as multiplication or division by 64, 4096 and 262144.
\<close>

definition cont :: "char \<Rightarrow> bool" where
  "cont c = (0x80 \<le> (of_char c :: int) \<and> (of_char c :: int) \<le> 0xBF)"

definition decoderune :: "string \<Rightarrow> rune \<times> nat" where
  "decoderune s =
     (case s of
        [] \<Rightarrow> (runeError, 1)
      | c0 # s1 \<Rightarrow>
          (let b0 = (of_char c0 :: int) in
           if 0xC0 \<le> b0 \<and> b0 < 0xE0 then
             (case s1 of
                c1 # _ \<Rightarrow>
                  (let r = (b0 mod 32) * 64 + (of_char c1 mod 64) in
                   if cont c1 \<and> 0x7F < r then (r, 2) else (runeError, 1))
              | _ \<Rightarrow> (runeError, 1))
           else if 0xE0 \<le> b0 \<and> b0 < 0xF0 then
             (case s1 of
                c1 # c2 # _ \<Rightarrow>
                  (let r = (b0 mod 16) * 4096 + (of_char c1 mod 64) * 64 + (of_char c2 mod 64) in
                   if cont c1 \<and> cont c2 \<and> 0x7FF < r \<and> \<not> (0xD800 \<le> r \<and> r \<le> 0xDFFF)
                   then (r, 3) else (runeError, 1))
              | _ \<Rightarrow> (runeError, 1))
           else if 0xF0 \<le> b0 \<and> b0 < 0xF8 then
             (case s1 of
                c1 # c2 # c3 # _ \<Rightarrow>
                  (let r = (b0 mod 8) * 262144 + (of_char c1 mod 64) * 4096
                           + (of_char c2 mod 64) * 64 + (of_char c3 mod 64) in
                   if cont c1 \<and> cont c2 \<and> cont c3 \<and> 0xFFFF < r \<and> r \<le> 0x10FFFF
                   then (r, 4) else (runeError, 1))
              | _ \<Rightarrow> (runeError, 1))
           else (runeError, 1)))"

function stringtoslicerune :: "string \<Rightarrow> rune list" where
  "stringtoslicerune [] = []"
| "stringtoslicerune (c # s) =
     (if (of_char c :: int) < 0x80 then of_char c # stringtoslicerune s
      else fst (decoderune (c # s)) # stringtoslicerune (drop (snd (decoderune (c # s)) - 1) s))"
  by pat_completeness auto
termination
  by (relation "measure length") auto

text \<open>
  The conversion \<^verbatim>\<open>string(chars)\<close> encodes every rune (\<^verbatim>\<open>encoderune\<close>); a negative rune, a
  surrogate or a rune beyond \<^verbatim>\<open>U+10FFFF\<close> is written as \<^verbatim>\<open>U+FFFD\<close>.
\<close>

definition encoderune :: "rune \<Rightarrow> string" where
  "encoderune r =
     (if 0 \<le> r \<and> r \<le> 0x7F then [char_of r]
      else if 0 \<le> r \<and> r \<le> 0x7FF then [char_of (0xC0 + r div 64), char_of (0x80 + r mod 64)]
      else if r < 0 \<or> 0x10FFFF < r \<or> (0xD800 \<le> r \<and> r \<le> 0xDFFF) then
        [char_of (0xE0 + runeError div 4096), char_of (0x80 + (runeError div 64) mod 64),
         char_of (0x80 + runeError mod 64)]
      else if r \<le> 0xFFFF then
        [char_of (0xE0 + r div 4096), char_of (0x80 + (r div 64) mod 64), char_of (0x80 + r mod 64)]
      else
        [char_of (0xF0 + r div 262144), char_of (0x80 + (r div 4096) mod 64),
         char_of (0x80 + (r div 64) mod 64), char_of (0x80 + r mod 64)])"

definition slicerunetostring :: "rune list \<Rightarrow> string" where
  "slicerunetostring rs = concat (map encoderune rs)"

text \<open>
  \<^verbatim>\<open>reverse\<close>: the loop \<^verbatim>\<open>for i, j := 0, len(chars)-1; i < j; i, j = i+1, j-1\<close> swaps in place.
  Both indices stay inside the slice while \<open>i < j\<close>, so no access is out of range.
\<close>

function reverse_loop :: "rune list \<Rightarrow> int \<Rightarrow> int \<Rightarrow> rune list" where
  "reverse_loop chars i j =
     (if i < j
      then reverse_loop (chars[nat i := chars ! nat j, nat j := chars ! nat i]) (i + 1) (j - 1)
      else chars)"
  by pat_completeness auto
termination
  by (relation "measure (\<lambda>(chars, i, j). nat (j - i))") auto

declare reverse_loop.simps [simp del]

definition reverse :: "string \<Rightarrow> string" where
  "reverse s =
     (let chars = stringtoslicerune s
      in slicerunetostring (reverse_loop chars 0 (int (length chars) - 1)))"

text \<open>\<^verbatim>\<open>copyBytes\<close> returns a fresh slice with the same contents.\<close>

definition copyBytes :: "string \<Rightarrow> string" where
  "copyBytes inp = take (length inp) inp"

text \<open>
  Well-formed UTF-8, as \<^verbatim>\<open>utf8.ValidString\<close> decides it: decoding never meets an encoding
  error. Unicode scalar values are the runes a well-formed string holds.
\<close>

definition valid_rune :: "rune \<Rightarrow> bool" where
  "valid_rune r = (0 \<le> r \<and> r \<le> 0x10FFFF \<and> \<not> (0xD800 \<le> r \<and> r \<le> 0xDFFF))"

function valid_utf8 :: "string \<Rightarrow> bool" where
  "valid_utf8 [] = True"
| "valid_utf8 (c # s) =
     (if (of_char c :: int) < 0x80 then valid_utf8 s
      else decoderune (c # s) \<noteq> (runeError, 1) \<and>
           valid_utf8 (drop (snd (decoderune (c # s)) - 1) s))"
  by pat_completeness auto
termination
  by (relation "measure length") auto

subsection \<open>Records and the backend interface\<close>

record Record =
  Key :: string
  Value :: string

text \<open>
  \<^verbatim>\<open>type Backend interface\<close>: a backend is a state of type \<open>'b\<close> and its three methods.
  \<^verbatim>\<open>Put\<close> returns its error and the new state. \<^verbatim>\<open>Search\<close> reads the state; it returns the pair
  \<^verbatim>\<open>([]Record, error)\<close>, or panics.
\<close>

record 'b Backend =
  Put :: "Record list \<Rightarrow> 'b \<Rightarrow> error option \<times> 'b"
  Search :: "string \<Rightarrow> 'b \<Rightarrow> panic + (Record list \<times> error option)"
  Close :: "'b \<Rightarrow> error option \<times> 'b"

text \<open>\<^verbatim>\<open>DummyBackend\<close> stores nothing and finds nothing.\<close>

definition DummyBackend :: "unit Backend" where
  "DummyBackend =
     \<lparr>Put = (\<lambda>records b. (None, b)),
      Search = (\<lambda>prefix b. Inr ([], None)),
      Close = (\<lambda>b. (None, b))\<rparr>"

subsection \<open>The loader: \<^verbatim>\<open>loadFile\<close>\<close>

datatype log_msg =
    LogStartLoading
  | LogParseError int error
  | LogPutFailed error
  | LogProgress int
  | LogLoaded int
  | LogSearchFailed string error
  | LogFatal error

text \<open>
  What \<^verbatim>\<open>os.Open\<close>, \<^verbatim>\<open>gzip.NewReader\<close> and the \<^verbatim>\<open>bufio.Scanner\<close> make of the input file: the
  open fails, the gzip header is bad, or the scanner delivers lines and then stops with
  \<^verbatim>\<open>scanner.Err()\<close>.
\<close>

datatype input_file = OpenFails error | GzipFails error | GzipStream "string list" "error option"

text \<open>
  \<^verbatim>\<open>jsonparser.EachKey\<close> is a library function: it is a parameter, giving for a line the calls
  it makes to the callback, each with \<^verbatim>\<open>idx\<close>, \<^verbatim>\<open>val\<close> and \<^verbatim>\<open>err\<close>. The callback of
  \<^verbatim>\<open>loadFile\<close> logs a call with an error and otherwise assigns \<^verbatim>\<open>key\<close> (index 0) or
  \<^verbatim>\<open>value\<close> (index 1).
\<close>

type_synonym each_key = "string \<Rightarrow> (int \<times> string \<times> error option) list"

definition callback ::
  "string \<times> string \<times> log_msg list \<Rightarrow> int \<times> string \<times> error option \<Rightarrow> string \<times> string \<times> log_msg list"
where
  "callback acc ev =
     (case acc of (key, value, msgs) \<Rightarrow>
      case ev of (idx, val, err) \<Rightarrow>
        (case err of
           Some e \<Rightarrow> (key, value, msgs @ [LogParseError idx e])
         | None \<Rightarrow>
             if idx = 0 then (val, value, msgs)
             else if idx = 1 then (key, val, msgs)
             else (key, value, msgs)))"

text \<open>The body of a parser goroutine for one line, up to the send on \<^verbatim>\<open>writerCh\<close>.\<close>

definition parse_line :: "each_key \<Rightarrow> string \<Rightarrow> Record option \<times> log_msg list" where
  "parse_line EachKey data =
     (case foldl callback ([], [], []) (EachKey data) of (key, value, msgs) \<Rightarrow>
        (if length key > 0 \<and> length value > 0
         then Some \<lparr>Key = reverse key, Value = copyBytes value\<rparr>
         else None,
         msgs))"

definition parsersCount :: nat where
  "parsersCount = 12"

definition writersCount :: nat where
  "writersCount = 4"

text \<open>
  The goroutines of \<^verbatim>\<open>loadFile\<close> meet only at the two unbuffered channels, so a run is a
  sequence of hand-overs, chosen by the scheduler:
  \<^item> \<open>Parse i\<close>: parser \<open>i\<close> receives the next scanned line from \<^verbatim>\<open>parserCh\<close> and runs its loop
    body; with a complete record it then waits to send.
  \<^item> \<open>Hand i w\<close>: writer \<open>w\<close> receives the record parser \<open>i\<close> is sending and runs its loop body,
    \<^verbatim>\<open>Put\<close> included.
  \<^item> \<open>Drain w\<close>: writer \<open>w\<close> finds \<^verbatim>\<open>writerCh\<close> closed (all lines parsed, all parsers returned),
    flushes what its buffer holds and returns.

  An entry of the schedule that is not enabled is skipped. \<open>puts\<close> and \<open>accepted\<close> are
  history: the calls of \<^verbatim>\<open>Put\<close> (writer, batch, result) and the records received from
  \<^verbatim>\<open>writerCh\<close> (writer, record), in order. A \<^verbatim>\<open>Put\<close> is taken to be atomic.
\<close>

datatype action = Parse nat | Hand nat nat | Drain nat

record 'b load_state =
  input :: "string list"
  parsers :: "Record option list"
  writers :: "Record list option list"
  backend :: 'b
  totalRecords :: int
  logs :: "log_msg list"
  puts :: "(nat \<times> Record list \<times> error option) list"
  accepted :: "(nat \<times> Record) list"

definition put_batch :: "'b Backend \<Rightarrow> nat \<Rightarrow> Record list \<Rightarrow> 'b load_state \<Rightarrow> 'b load_state" where
  "put_batch be w records st =
     (case Put be records (backend st) of (err, b') \<Rightarrow>
        st\<lparr>backend := b',
           puts := puts st @ [(w, records, err)],
           logs := logs st @ (case err of None \<Rightarrow> [] | Some e \<Rightarrow> [LogPutFailed e])\<rparr>)"

text \<open>The body of the loop \<^verbatim>\<open>for r := range writerCh\<close> of writer \<open>w\<close>, whose buffer is \<open>buf\<close>.\<close>

definition writer_recv ::
  "'b Backend \<Rightarrow> int \<Rightarrow> nat \<Rightarrow> Record list \<Rightarrow> Record \<Rightarrow> 'b load_state \<Rightarrow> 'b load_state"
where
  "writer_recv be batchSize w buf r st =
     (let records = buf @ [r];
          st1 = st\<lparr>accepted := accepted st @ [(w, r)]\<rparr>;
          st2 = (if int (length records) = batchSize
                 then (put_batch be w records st1)\<lparr>writers := (writers st1)[w := Some []]\<rparr>
                 else st1\<lparr>writers := (writers st1)[w := Some records]\<rparr>);
          cnt = totalRecords st2 + 1
      in st2\<lparr>totalRecords := cnt,
             logs := logs st2 @ (if cnt mod 1000000 = 0 then [LogProgress cnt] else [])\<rparr>)"

text \<open>After the loop: \<^verbatim>\<open>if len(records) > 0 { backend.Put(records) }\<close>, then the writer returns.\<close>

definition writer_drain :: "'b Backend \<Rightarrow> nat \<Rightarrow> Record list \<Rightarrow> 'b load_state \<Rightarrow> 'b load_state" where
  "writer_drain be w buf st =
     (let st1 = (if length buf > 0 then put_batch be w buf st else st)
      in st1\<lparr>writers := (writers st1)[w := None]\<rparr>)"

definition parsers_done :: "'b load_state \<Rightarrow> bool" where
  "parsers_done st = (input st = [] \<and> list_all (\<lambda>p. p = None) (parsers st))"

fun step :: "'b Backend \<Rightarrow> each_key \<Rightarrow> int \<Rightarrow> 'b load_state \<Rightarrow> action \<Rightarrow> 'b load_state" where
  "step be EachKey batchSize st (Parse i) =
     (if i < parsersCount \<and> parsers st ! i = None then
        (case input st of
           [] \<Rightarrow> st
         | data # rest \<Rightarrow>
             (case parse_line EachKey data of (rec, msgs) \<Rightarrow>
                st\<lparr>input := rest, parsers := (parsers st)[i := rec], logs := logs st @ msgs\<rparr>))
      else st)"
| "step be EachKey batchSize st (Hand i w) =
     (if i < parsersCount \<and> w < writersCount then
        (case parsers st ! i of
           None \<Rightarrow> st
         | Some r \<Rightarrow>
             (case writers st ! w of
                None \<Rightarrow> st
              | Some buf \<Rightarrow>
                  writer_recv be batchSize w buf r (st\<lparr>parsers := (parsers st)[i := None]\<rparr>)))
      else st)"
| "step be EachKey batchSize st (Drain w) =
     (if w < writersCount \<and> parsers_done st then
        (case writers st ! w of
           None \<Rightarrow> st
         | Some buf \<Rightarrow> writer_drain be w buf st)
      else st)"

definition load_init :: "string list \<Rightarrow> 'b \<Rightarrow> 'b load_state" where
  "load_init lines b =
     \<lparr>input = lines,
      parsers = replicate parsersCount None,
      writers = replicate writersCount (Some []),
      backend = b,
      totalRecords = 0,
      logs = [LogStartLoading],
      puts = [],
      accepted = []\<rparr>"

definition load_finished :: "'b load_state \<Rightarrow> bool" where
  "load_finished st = (parsers_done st \<and> list_all (\<lambda>w. w = None) (writers st))"

text \<open>
  \<^verbatim>\<open>make([]Record, 0, batchSize)\<close> in a writer goroutine. The runtime's \<^verbatim>\<open>makeslice\<close> panics
  when the capacity is negative or when the capacity times the size of an element exceeds
  \<^verbatim>\<open>maxAlloc\<close>. On a 64-bit platform a \<^verbatim>\<open>Record\<close> is a string header and a slice header, 40
  bytes, and \<^verbatim>\<open>maxAlloc\<close> is \<open>2 ^ 48\<close>: the first capacity refused is 7036874417767.
\<close>

definition Record_size :: int where
  "Record_size = 40"

definition maxAlloc :: int where
  "maxAlloc = 281474976710656"

definition makeslice_panics :: "int \<Rightarrow> bool" where
  "makeslice_panics cap = (cap < 0 \<or> maxAlloc < cap * Record_size)"

definition cap_out_of_range :: panic where
  "cap_out_of_range = Panic ''runtime error: makeslice: cap out of range''"

text \<open>
  \<^verbatim>\<open>loadFile\<close> under a schedule. The result is \<open>None\<close> when the schedule stops short of the
  end of the run (a writer has not returned). When \<^verbatim>\<open>make\<close> panics in the writer goroutines
  the process ends before any record is received. Exhausted memory is not modelled, and
  neither is the time of day in the log lines.
\<close>

datatype 'b load_outcome = Returned "error option" "'b load_state" | Panicked panic

definition loadFile ::
  "'b Backend \<Rightarrow> each_key \<Rightarrow> input_file \<Rightarrow> int \<Rightarrow> action list \<Rightarrow> 'b \<Rightarrow> 'b load_outcome option"
where
  "loadFile be EachKey f batchSize sched b =
     (case f of
        OpenFails e \<Rightarrow>
          Some (Returned (Some e)
            \<lparr>input = [], parsers = [], writers = [], backend = b, totalRecords = 0, logs = [],
             puts = [], accepted = []\<rparr>)
      | GzipFails e \<Rightarrow>
          Some (Returned (Some e)
            \<lparr>input = [], parsers = [], writers = [], backend = b, totalRecords = 0, logs = [],
             puts = [], accepted = []\<rparr>)
      | GzipStream lines scanErr \<Rightarrow>
          if makeslice_panics batchSize then Some (Panicked cap_out_of_range)
          else
            (let st = foldl (step be EachKey batchSize) (load_init lines b) sched
             in if load_finished st
                then Some (Returned scanErr (st\<lparr>logs := logs st @ [LogLoaded (totalRecords st)]\<rparr>))
                else None))"

text \<open>
  A schedule that always ends the run: parser 0 takes each line and hands its record to
  writer 0, then the four writers drain.
\<close>

definition seq_schedule :: "string list \<Rightarrow> action list" where
  "seq_schedule lines =
     concat (map (\<lambda>_. [Parse 0, Hand 0 0]) lines) @ map Drain [0 ..< writersCount]"

text \<open>What the history of a run says about one writer, and the records of the input.\<close>

definition puts_of :: "nat \<Rightarrow> (nat \<times> Record list \<times> error option) list \<Rightarrow> Record list list" where
  "puts_of w ps = map (\<lambda>p. fst (snd p)) (filter (\<lambda>p. fst p = w) ps)"

definition accepted_by :: "nat \<Rightarrow> (nat \<times> Record) list \<Rightarrow> Record list" where
  "accepted_by w acc = map snd (filter (\<lambda>p. fst p = w) acc)"

definition batches :: "(nat \<times> Record list \<times> error option) list \<Rightarrow> Record list list" where
  "batches ps = map (\<lambda>p. fst (snd p)) ps"

definition valid_records :: "each_key \<Rightarrow> string list \<Rightarrow> Record list" where
  "valid_records EachKey lines = List.map_filter (\<lambda>data. fst (parse_line EachKey data)) lines"

definition ceil_div :: "nat \<Rightarrow> nat \<Rightarrow> nat" where
  "ceil_div n b = (n + b - 1) div b"

text \<open>The batches of the \<^verbatim>\<open>Put\<close> calls of a run that returned; none otherwise.\<close>

definition put_calls :: "'b load_outcome option \<Rightarrow> Record list list" where
  "put_calls out =
     (case out of Some (Returned r st) \<Rightarrow> batches (puts st) | _ \<Rightarrow> [])"

text \<open>What \<^verbatim>\<open>loadFile\<close> returns, and what its \<^verbatim>\<open>Put\<close> calls returned, in a run that returned.\<close>

definition load_result :: "'b load_outcome option \<Rightarrow> error option option" where
  "load_result out =
     (case out of Some (Returned r st) \<Rightarrow> Some r | _ \<Rightarrow> None)"

definition put_results :: "'b load_outcome option \<Rightarrow> error option list" where
  "put_results out =
     (case out of Some (Returned r st) \<Rightarrow> map (\<lambda>p. snd (snd p)) (puts st) | _ \<Rightarrow> [])"

text \<open>The errors of the failed \<^verbatim>\<open>Put\<close> calls, and the errors the log reports for them.\<close>

definition put_errors :: "(nat \<times> Record list \<times> error option) list \<Rightarrow> error list" where
  "put_errors ps = List.map_filter (\<lambda>p. snd (snd p)) ps"

definition logged_put_errors :: "log_msg list \<Rightarrow> error list" where
  "logged_put_errors lg = List.map_filter (\<lambda>m. case m of LogPutFailed e \<Rightarrow> Some e | _ \<Rightarrow> None) lg"

text \<open>
  For the examples: a stand-in for \<^verbatim>\<open>EachKey\<close> that reports the whole line as the name and
  \<^verbatim>\<open>1\<close> as the value, and a backend whose every \<^verbatim>\<open>Put\<close> fails.
\<close>

definition example_EachKey :: each_key where
  "example_EachKey data = [(0, data, None), (1, ''1'', None)]"

definition FailingBackend :: "unit Backend" where
  "FailingBackend =
     \<lparr>Put = (\<lambda>recs b. (Some (Error ''disk full''), b)),
      Search = (\<lambda>bprefix b. Inr ([], None)),
      Close = (\<lambda>b. (None, b))\<rparr>"

text \<open>
  A backend for tests that does nothing but keep the batches it is given, in the order of
  the calls.
\<close>

definition RecordingBackend :: "Record list list Backend" where
  "RecordingBackend =
     \<lparr>Put = (\<lambda>recs b. (None, b @ [recs])),
      Search = (\<lambda>bprefix b. Inr ([], None)),
      Close = (\<lambda>b. (None, b))\<rparr>"

text \<open>
  The name and the value of a line as the callback is given them: what the last call without
  an error reports for the index, and nothing when there is no such call.
\<close>

definition field_of :: "int \<Rightarrow> (int \<times> string \<times> error option) list \<Rightarrow> string" where
  "field_of idx evs =
     (let reports = filter (\<lambda>ev. fst ev = idx \<and> snd (snd ev) = None) evs
      in if reports = [] then [] else fst (snd (last reports)))"

text \<open>A record with a key and a value that are not empty.\<close>

definition has_key_and_value :: "Record \<Rightarrow> bool" where
  "has_key_and_value rec = (Key rec \<noteq> [] \<and> Value rec \<noteq> [])"

subsection \<open>Invariants of a run of the loader\<close>

text \<open>
  What holds of one writer: the batches it has put, followed by its buffer, are the records
  it has received; while it runs its batches are full and its buffer is not, and once it
  has returned all its batches but the last are full, none is empty, and their count is the
  ceiling of its share over the batch size.
\<close>

definition winv :: "int \<Rightarrow> Record list option \<Rightarrow> Record list list \<Rightarrow> Record list \<Rightarrow> bool" where
  "winv B ws ps acc =
     (case ws of
        Some buf \<Rightarrow>
          concat ps @ buf = acc \<and>
          (if 0 < B
           then int (length buf) < B \<and> list_all (\<lambda>batch. int (length batch) = B) ps
           else ps = [])
      | None \<Rightarrow>
          concat ps = acc \<and>
          list_all (\<lambda>batch. batch \<noteq> []) ps \<and>
          (if 0 < B
           then list_all (\<lambda>batch. int (length batch) = B) (butlast ps) \<and>
                list_all (\<lambda>batch. int (length batch) \<le> B) ps \<and>
                length ps = ceil_div (length acc) (nat B)
           else length ps = (if acc = [] then 0 else 1)))"

definition writer_inv :: "int \<Rightarrow> 'b load_state \<Rightarrow> nat \<Rightarrow> bool" where
  "writer_inv B st w =
     winv B (writers st ! w) (puts_of w (puts st)) (accepted_by w (accepted st))"

text \<open>
  The records of the input are those received by the writers, those the parsers hold, and
  those of the lines not yet parsed.
\<close>

definition pending :: "'a option list \<Rightarrow> 'a multiset" where
  "pending ps = sum_list (map (\<lambda>p. case p of None \<Rightarrow> {#} | Some r \<Rightarrow> {#r#}) ps)"

definition flow :: "each_key \<Rightarrow> 'b load_state \<Rightarrow> Record multiset" where
  "flow EK st = mset (map snd (accepted st)) + pending (parsers st) + mset (valid_records EK (input st))"

definition ids_ok :: "'b load_state \<Rightarrow> bool" where
  "ids_ok st = (list_all (\<lambda>p. fst p < writersCount) (puts st) \<and>
                list_all (\<lambda>p. fst p < writersCount) (accepted st))"

definition load_inv :: "each_key \<Rightarrow> int \<Rightarrow> string list \<Rightarrow> 'b load_state \<Rightarrow> bool" where
  "load_inv EK B lines st =
     (length (parsers st) = parsersCount \<and> length (writers st) = writersCount \<and>
      list_all (\<lambda>w. writer_inv B st w) [0 ..< writersCount] \<and>
      flow EK st = mset (valid_records EK lines) \<and>
      totalRecords st = int (length (accepted st)) \<and>
      ids_ok st)"

text \<open>The part of the state that does not depend on what the backend answers.\<close>

definition trace :: "'b load_state \<Rightarrow> (nat \<times> Record list) list" where
  "trace st = map (\<lambda>p. (fst p, fst (snd p))) (puts st)"

definition skeleton ::
  "'b load_state \<Rightarrow> string list \<times> Record option list \<times> Record list option list \<times> int
     \<times> (nat \<times> Record list) list \<times> (nat \<times> Record) list" where
  "skeleton st = (input st, parsers st, writers st, totalRecords st, trace st, accepted st)"

text \<open>Every record in flight satisfies \<open>P\<close>.\<close>

definition carried :: "(Record \<Rightarrow> bool) \<Rightarrow> each_key \<Rightarrow> 'b load_state \<Rightarrow> bool" where
  "carried P EK st =
     (length (parsers st) = parsersCount \<and> length (writers st) = writersCount \<and>
      list_all (\<lambda>p. case p of None \<Rightarrow> True | Some r \<Rightarrow> P r) (parsers st) \<and>
      list_all (\<lambda>w. case w of None \<Rightarrow> True | Some buf \<Rightarrow> list_all P buf) (writers st) \<and>
      list_all P (valid_records EK (input st)))"

text \<open>No parser holds a record and every writer runs.\<close>

definition idle :: "'b load_state \<Rightarrow> bool" where
  "idle st = (list_all (\<lambda>p. p = None) (parsers st) \<and> length (parsers st) = parsersCount \<and>
              length (writers st) = writersCount \<and> list_all (\<lambda>w. w \<noteq> None) (writers st))"

subsection \<open>The query dispatcher of \<^verbatim>\<open>main\<close>\<close>

text \<open>\<^verbatim>\<open>strings.Split(query, ",")\<close>, and the loop that keeps the non-empty parts.\<close>

fun Split_comma :: "string \<Rightarrow> string list" where
  "Split_comma [] = [[]]"
| "Split_comma (c # s) =
     (if c = CHR '','' then [] # Split_comma s
      else (case Split_comma s of [] \<Rightarrow> [[c]] | p # ps \<Rightarrow> (c # p) # ps))"

definition queryTerms :: "string \<Rightarrow> string list" where
  "queryTerms q = filter (\<lambda>part. length part > 0) (Split_comma q)"

record queryResult =
  query :: string
  records :: "Record list"
  err :: "error option"

text \<open>
  The branch \<^verbatim>\<open>concurrency == 1\<close>: one loop over the terms. The first component is history:
  the prefixes passed to \<^verbatim>\<open>Search\<close>, in the order of the calls. A panic of \<^verbatim>\<open>Search\<close> ends
  the loop.
\<close>

fun search_each ::
  "'b Backend \<Rightarrow> 'b \<Rightarrow> string list \<Rightarrow> string list \<times> queryResult list
   \<Rightarrow> string list \<times> (panic + queryResult list)"
where
  "search_each be b [] (tr, res) = (tr, Inr res)"
| "search_each be b (q # qs) (tr, res) =
     (case Search be (reverse q) b of
        Inl p \<Rightarrow> (tr @ [reverse q], Inl p)
      | Inr (recs, e) \<Rightarrow>
          search_each be b qs
            (tr @ [reverse q], res @ [\<lparr>query = q, records = recs, err = e\<rparr>]))"

text \<open>
  The other branch: \<open>concurrency\<close> worker goroutines. Main sends the terms on \<^verbatim>\<open>queryCh\<close> in
  order; a collector goroutine receives from \<^verbatim>\<open>outCh\<close> and appends to \<^verbatim>\<open>results\<close>. Both
  channels are unbuffered. The scheduler chooses
  \<^item> \<open>Take i\<close>: worker \<open>i\<close> receives the next term and calls \<^verbatim>\<open>Search\<close>; it then waits to send;
  \<^item> \<open>Emit i\<close>: the collector, back at its receive, takes the result of worker \<open>i\<close>;
  \<^item> \<open>Append\<close>: the collector appends the result it holds.

  An entry that is not enabled is skipped. A panic in a worker ends the process. Main goes
  on from \<^verbatim>\<open>wg.Wait()\<close> once every term is sent and every worker has sent its result and
  returned; it then reads \<^verbatim>\<open>results\<close> without waiting for the collector, so a result the
  collector holds and has not appended is not among those main prints. The end of the
  schedule is that read. The result is \<open>None\<close> when the schedule leaves a term unsent or a
  worker with a result; with no worker at all (\<open>concurrency < 1\<close>) every schedule does, as
  main blocks on its first send. The read races with the last append; it is taken to see
  the slice either before or after it.
\<close>

datatype qaction = Take nat | Emit nat | Append

record qstate =
  queue :: "string list"
  workers :: "queryResult option list"
  held :: "queryResult option"
  results :: "queryResult list"
  searched :: "string list"
  crashed :: "panic option"

fun qstep :: "'b Backend \<Rightarrow> 'b \<Rightarrow> qstate \<Rightarrow> qaction \<Rightarrow> qstate" where
  "qstep be b st (Take i) =
     (if crashed st = None \<and> i < length (workers st) \<and> workers st ! i = None then
        (case queue st of
           [] \<Rightarrow> st
         | q # rest \<Rightarrow>
             (case Search be (reverse q) b of
                Inl p \<Rightarrow>
                  st\<lparr>queue := rest, searched := searched st @ [reverse q], crashed := Some p\<rparr>
              | Inr (recs, e) \<Rightarrow>
                  st\<lparr>queue := rest, searched := searched st @ [reverse q],
                     workers := (workers st)[i := Some \<lparr>query = q, records = recs, err = e\<rparr>]\<rparr>))
      else st)"
| "qstep be b st (Emit i) =
     (if crashed st = None \<and> i < length (workers st) \<and> held st = None then
        (case workers st ! i of
           None \<Rightarrow> st
         | Some r \<Rightarrow> st\<lparr>workers := (workers st)[i := None], held := Some r\<rparr>)
      else st)"
| "qstep be b st Append =
     (if crashed st = None then
        (case held st of
           None \<Rightarrow> st
         | Some r \<Rightarrow> st\<lparr>held := None, results := results st @ [r]\<rparr>)
      else st)"

definition qinit :: "string list \<Rightarrow> int \<Rightarrow> qstate" where
  "qinit terms concurrency =
     \<lparr>queue = terms, workers = replicate (nat concurrency) None, held = None, results = [],
      searched = [], crashed = None\<rparr>"

definition search_pool ::
  "'b Backend \<Rightarrow> 'b \<Rightarrow> string list \<Rightarrow> int \<Rightarrow> qaction list
   \<Rightarrow> (string list \<times> (panic + queryResult list)) option"
where
  "search_pool be b terms concurrency sched =
     (let st = foldl (qstep be b) (qinit terms concurrency) sched
      in case crashed st of
           Some p \<Rightarrow> Some (searched st, Inl p)
         | None \<Rightarrow>
             if queue st = [] \<and> list_all (\<lambda>w. w = None) (workers st)
             then Some (searched st, Inr (results st))
             else None)"

text \<open>
  The output loop. \<^verbatim>\<open>json.Marshal\<close> and \<^verbatim>\<open>strings.TrimSpace\<close> are library functions and are
  parameters. Each element of the output is what one call of \<^verbatim>\<open>Printf\<close> or \<^verbatim>\<open>Println\<close>
  writes. \<open>Inl\<close> is \<^verbatim>\<open>log.Fatal\<close>: the process exits at once with status 1.
\<close>

datatype JSONLine = JSONLine string string string

type_synonym marshal = "JSONLine \<Rightarrow> string \<times> error option"

definition print_line ::
  "marshal \<Rightarrow> (string \<Rightarrow> string) \<Rightarrow> bool \<Rightarrow> string \<Rightarrow> Record \<Rightarrow> error + string"
where
  "print_line Marshal TrimSpace jsonFmt q r =
     (let key = reverse (Key r) in
      if \<not> jsonFmt then Inr (key @ '': '' @ TrimSpace (Value r) @ [CHR 0x0A])
      else (case Marshal (JSONLine q key (Value r)) of
              (output, Some e) \<Rightarrow> Inl e
            | (output, None) \<Rightarrow> Inr (output @ [CHR 0x0A])))"

fun print_lines ::
  "marshal \<Rightarrow> (string \<Rightarrow> string) \<Rightarrow> bool \<Rightarrow> string \<Rightarrow> Record list \<Rightarrow> string list
   \<Rightarrow> (error \<times> string list) + string list"
where
  "print_lines Marshal TrimSpace jsonFmt q [] out = Inr out"
| "print_lines Marshal TrimSpace jsonFmt q (r # rs) out =
     (case print_line Marshal TrimSpace jsonFmt q r of
        Inl e \<Rightarrow> Inl (e, out)
      | Inr line \<Rightarrow> print_lines Marshal TrimSpace jsonFmt q rs (out @ [line]))"

fun print_results ::
  "marshal \<Rightarrow> (string \<Rightarrow> string) \<Rightarrow> bool \<Rightarrow> queryResult list \<Rightarrow> string list \<times> log_msg list
   \<Rightarrow> (error \<times> string list \<times> log_msg list) + (string list \<times> log_msg list)"
where
  "print_results Marshal TrimSpace jsonFmt [] (out, lg) = Inr (out, lg)"
| "print_results Marshal TrimSpace jsonFmt (res # rest) (out, lg) =
     (case err res of
        Some e \<Rightarrow>
          print_results Marshal TrimSpace jsonFmt rest (out, lg @ [LogSearchFailed (query res) e])
      | None \<Rightarrow>
          (case print_lines Marshal TrimSpace jsonFmt (query res) (records res) out of
             Inl (e, out') \<Rightarrow> Inl (e, out', lg)
           | Inr out' \<Rightarrow> print_results Marshal TrimSpace jsonFmt rest (out', lg)))"

text \<open>
  \<^verbatim>\<open>main\<close> from the split of the query string to its end. The exit status is 0 when main
  returns, 1 after \<^verbatim>\<open>log.Fatal\<close> and 2 after a panic.
\<close>

record run =
  exit_status :: nat
  out_lines :: "string list"
  log_lines :: "log_msg list"
  search_calls :: "string list"

definition effective_concurrency :: "int \<Rightarrow> nat \<Rightarrow> int" where
  "effective_concurrency queryConcurrency l =
     (if int l < queryConcurrency then int l else queryConcurrency)"

definition run_queries ::
  "'b Backend \<Rightarrow> marshal \<Rightarrow> (string \<Rightarrow> string) \<Rightarrow> string \<Rightarrow> int \<Rightarrow> bool \<Rightarrow> qaction list \<Rightarrow> 'b
   \<Rightarrow> run option"
where
  "run_queries be Marshal TrimSpace q queryConcurrency jsonFmt sched b =
     (let terms = queryTerms q in
      if length terms > 0 then
        (let concurrency = effective_concurrency queryConcurrency (length terms) in
         case (if concurrency = 1 then Some (search_each be b terms ([], []))
               else search_pool be b terms concurrency sched) of
           None \<Rightarrow> None
         | Some (tr, Inl p) \<Rightarrow>
             Some \<lparr>exit_status = 2, out_lines = [], log_lines = [], search_calls = tr\<rparr>
         | Some (tr, Inr res) \<Rightarrow>
             (case print_results Marshal TrimSpace jsonFmt res ([], []) of
                Inl (e, out, lg) \<Rightarrow>
                  Some \<lparr>exit_status = 1, out_lines = out, log_lines = lg @ [LogFatal e],
                        search_calls = tr\<rparr>
              | Inr (out, lg) \<Rightarrow>
                  Some \<lparr>exit_status = 0, out_lines = out, log_lines = lg, search_calls = tr\<rparr>))
      else Some \<lparr>exit_status = 0, out_lines = [], log_lines = [], search_calls = []\<rparr>)"

text \<open>
  What the output loop prints for one record of the term \<open>t\<close>, when \<^verbatim>\<open>Marshal\<close> succeeds; the
  group of output lines of one term and the log line of a failed search, from what the
  term's own \<^verbatim>\<open>Search\<close> returned; and the \<^verbatim>\<open>queryResult\<close> made of it.
\<close>

definition output_line :: "marshal \<Rightarrow> (string \<Rightarrow> string) \<Rightarrow> bool \<Rightarrow> string \<Rightarrow> Record \<Rightarrow> string" where
  "output_line Marshal TrimSpace jsonFmt t r =
     (if \<not> jsonFmt then reverse (Key r) @ '': '' @ TrimSpace (Value r) @ [CHR 0x0A]
      else fst (Marshal (JSONLine t (reverse (Key r)) (Value r))) @ [CHR 0x0A])"

definition group_lines ::
  "marshal \<Rightarrow> (string \<Rightarrow> string) \<Rightarrow> bool \<Rightarrow> string \<Rightarrow> panic + (Record list \<times> error option) \<Rightarrow> string list"
where
  "group_lines Marshal TrimSpace jsonFmt t found =
     (case found of
        Inr (recs, None) \<Rightarrow> map (output_line Marshal TrimSpace jsonFmt t) recs
      | _ \<Rightarrow> [])"

definition result_log :: "string \<Rightarrow> panic + (Record list \<times> error option) \<Rightarrow> log_msg list" where
  "result_log q found =
     (case found of Inr (recs, Some e) \<Rightarrow> [LogSearchFailed q e] | _ \<Rightarrow> [])"

definition result_of :: "'b Backend \<Rightarrow> 'b \<Rightarrow> string \<Rightarrow> queryResult" where
  "result_of be b t =
     (case Search be (reverse t) b of
        Inr (recs, e) \<Rightarrow> \<lparr>query = t, records = recs, err = e\<rparr>
      | Inl p \<Rightarrow> \<lparr>query = t, records = [], err = None\<rparr>)"

text \<open>
  For the examples: \<^verbatim>\<open>strings.TrimSpace\<close> on ASCII text, \<^verbatim>\<open>json.Marshal\<close> on a \<^verbatim>\<open>JSONLine\<close>
  whose strings need no escaping, and a backend whose \<^verbatim>\<open>Search\<close> fails for the term \<^verbatim>\<open>b\<close>
  and finds one record for any other.
\<close>

definition ascii_space :: "char \<Rightarrow> bool" where
  "ascii_space c =
     (c = CHR '' '' \<or> c = CHR 0x09 \<or> c = CHR 0x0A \<or> c = CHR 0x0B \<or> c = CHR 0x0C \<or> c = CHR 0x0D)"

definition TrimSpace_ascii :: "string \<Rightarrow> string" where
  "TrimSpace_ascii s = rev (dropWhile ascii_space (rev (dropWhile ascii_space s)))"

definition quoted :: "string \<Rightarrow> string" where
  "quoted s = [CHR 0x22] @ s @ [CHR 0x22]"

definition example_Marshal :: marshal where
  "example_Marshal l =
     (case l of JSONLine q k v \<Rightarrow>
        (''{'' @ quoted ''query'' @ '':'' @ quoted q @ '','' @ quoted ''key'' @ '':'' @ quoted k
           @ '','' @ quoted ''value'' @ '':'' @ quoted v @ ''}'',
         None))"

definition FlakyBackend :: "unit Backend" where
  "FlakyBackend =
     \<lparr>Put = (\<lambda>recs b. (None, b)),
      Search = (\<lambda>bprefix b.
        if bprefix = ''b'' then Inr ([], Some (Error ''timeout''))
        else Inr ([\<lparr>Key = bprefix, Value = ''v''\<rparr>], None)),
      Close = (\<lambda>b. (None, b))\<rparr>"

subsection \<open>\<^verbatim>\<open>bbolt.go\<close>\<close>

text \<open>
  The part of a bbolt database the backend uses: whether it is open, the bucket named
  \<^verbatim>\<open>bucket\<close> when it exists, as the pairs it holds in ascending key order, and the error a
  commit would meet on the disk. \<^verbatim>\<open>tx.Bucket\<close> returns \<^verbatim>\<open>nil\<close> for a bucket that does not
  exist, and \<^verbatim>\<open>Cursor\<close> reads a field of its receiver.
\<close>

record bbolt_DB =
  opened :: bool
  bucket :: "(string \<times> string) list option"
  disk_fault :: "error option"

definition ErrDatabaseNotOpen :: error where
  "ErrDatabaseNotOpen = Error ''database not open''"

definition ErrKeyRequired :: error where
  "ErrKeyRequired = Error ''key required''"

definition ErrKeyTooLarge :: error where
  "ErrKeyTooLarge = Error ''key too large''"

definition ErrValueTooLarge :: error where
  "ErrValueTooLarge = Error ''value too large''"

definition nil_dereference :: panic where
  "nil_dereference = Panic ''runtime error: invalid memory address or nil pointer dereference''"

text \<open>\<^verbatim>\<open>NewBBoltBackend\<close> on a file that does not exist yet: \<^verbatim>\<open>bbolt.Open\<close> creates it, empty.\<close>

definition bbolt_new :: bbolt_DB where
  "bbolt_new = \<lparr>opened = True, bucket = None, disk_fault = None\<rparr>"

fun bucket_insert :: "string \<Rightarrow> string \<Rightarrow> (string \<times> string) list \<Rightarrow> (string \<times> string) list" where
  "bucket_insert k v [] = [(k, v)]"
| "bucket_insert k v ((k', v') # kvs) =
     (if k = k' then (k, v) # kvs
      else if k < k' then (k, v) # (k', v') # kvs
      else (k', v') # bucket_insert k v kvs)"

definition bucket_Put :: "string \<Rightarrow> string \<Rightarrow> (string \<times> string) list \<Rightarrow> error + (string \<times> string) list" where
  "bucket_Put k v kvs =
     (if length k = 0 then Inl ErrKeyRequired
      else if int (length k) > 32768 then Inl ErrKeyTooLarge
      else if int (length v) > 2147483646 then Inl ErrValueTooLarge
      else Inr (bucket_insert k v kvs))"

text \<open>The loop \<^verbatim>\<open>for _, r := range records\<close> of \<^verbatim>\<open>Put\<close>, inside the update transaction.\<close>

fun put_each :: "Record list \<Rightarrow> (string \<times> string) list \<Rightarrow> error + (string \<times> string) list" where
  "put_each [] kvs = Inr kvs"
| "put_each (r # rs) kvs =
     (case bucket_Put (Key r) (Value r) kvs of
        Inl e \<Rightarrow> Inl e
      | Inr kvs' \<Rightarrow> put_each rs kvs')"

text \<open>
  \<^verbatim>\<open>BBoltBackend.Put\<close>: \<^verbatim>\<open>db.Update\<close> rolls the transaction back when the function returns an
  error, bucket creation included, and commits otherwise.
\<close>

definition BBoltBackend_Put :: "Record list \<Rightarrow> bbolt_DB \<Rightarrow> error option \<times> bbolt_DB" where
  "BBoltBackend_Put recs db =
     (if \<not> opened db then (Some ErrDatabaseNotOpen, db)
      else
        (let kvs0 = (case bucket db of None \<Rightarrow> [] | Some kvs \<Rightarrow> kvs) in
         case put_each recs kvs0 of
           Inl e \<Rightarrow> (Some e, db)
         | Inr kvs' \<Rightarrow>
             (case disk_fault db of
                Some e \<Rightarrow> (Some e, db)
              | None \<Rightarrow> (None, db\<lparr>bucket := Some kvs'\<rparr>))))"

text \<open>
  The cursor loop of \<^verbatim>\<open>Search\<close>: \<^verbatim>\<open>Seek\<close> moves to the first key not below the prefix, and the
  loop runs while the key has the prefix.
\<close>

fun cursor_loop :: "string \<Rightarrow> (string \<times> string) list \<Rightarrow> Record list \<Rightarrow> Record list" where
  "cursor_loop bprefix [] recs = recs"
| "cursor_loop bprefix ((k, v) # rest) recs =
     (if prefix bprefix k then cursor_loop bprefix rest (recs @ [\<lparr>Key = k, Value = v\<rparr>])
      else recs)"

definition BBoltBackend_Search :: "string \<Rightarrow> bbolt_DB \<Rightarrow> panic + (Record list \<times> error option)" where
  "BBoltBackend_Search bprefix db =
     (if \<not> opened db then Inr ([], Some ErrDatabaseNotOpen)
      else
        (case bucket db of
           None \<Rightarrow> Inl nil_dereference
         | Some kvs \<Rightarrow> Inr (cursor_loop bprefix (dropWhile (\<lambda>kv. fst kv < bprefix) kvs) [], None)))"

definition BBoltBackend :: "bbolt_DB Backend" where
  "BBoltBackend =
     \<lparr>Put = BBoltBackend_Put,
      Search = BBoltBackend_Search,
      Close = (\<lambda>db. (None, db\<lparr>opened := False\<rparr>))\<rparr>"

text \<open>No pair of the bucket has an empty key or an empty value.\<close>

definition bucket_ok :: "bbolt_DB \<Rightarrow> bool" where
  "bucket_ok db =
     (case bucket db of
        None \<Rightarrow> True
      | Some kvs \<Rightarrow> list_all (\<lambda>kv. fst kv \<noteq> [] \<and> snd kv \<noteq> []) kvs)"

subsection \<open>\<^verbatim>\<open>badgerdb.go\<close>\<close>

text \<open>
  The part of a badger database \<^verbatim>\<open>Search\<close> reads: whether it is closed, and its live items
  in ascending key order, each with what \<^verbatim>\<open>ValueCopy\<close> returns for it, an error or the
  value. \<^verbatim>\<open>db.View\<close> returns \<^verbatim>\<open>ErrDBClosed\<close> on a closed database and otherwise what the
  function returns.
\<close>

record badger_DB =
  is_closed :: bool
  items :: "(string \<times> (error + string)) list"

definition ErrDBClosed :: error where
  "ErrDBClosed = Error ''DB Closed''"

fun badger_iterate ::
  "string \<Rightarrow> (string \<times> (error + string)) list \<Rightarrow> Record list \<Rightarrow> Record list \<times> error option"
where
  "badger_iterate bprefix [] recs = (recs, None)"
| "badger_iterate bprefix ((k, v) # rest) recs =
     (if prefix bprefix k then
        (case v of
           Inl e \<Rightarrow> (recs, Some e)
         | Inr val \<Rightarrow> badger_iterate bprefix rest (recs @ [\<lparr>Key = k, Value = val\<rparr>]))
      else (recs, None))"

text \<open>The records gathered by the function passed to \<^verbatim>\<open>db.View\<close>, and what \<^verbatim>\<open>db.View\<close> returns.\<close>

definition badger_View :: "string \<Rightarrow> badger_DB \<Rightarrow> Record list \<times> error option" where
  "badger_View bprefix db =
     (if is_closed db then ([], Some ErrDBClosed)
      else badger_iterate bprefix (dropWhile (\<lambda>kv. fst kv < bprefix) (items db)) [])"

definition BadgerDBBackend_Search :: "string \<Rightarrow> badger_DB \<Rightarrow> panic + (Record list \<times> error option)" where
  "BadgerDBBackend_Search bprefix db =
     (case badger_View bprefix db of (recs, view_err) \<Rightarrow> Inr (recs, None))"

text \<open>
  The records \<^verbatim>\<open>Search\<close> gathers before the function passed to \<^verbatim>\<open>db.View\<close> returns: an item
  is read when its key has the prefix and \<^verbatim>\<open>ValueCopy\<close> succeeds.
\<close>

definition readable :: "string \<Rightarrow> string \<times> (error + string) \<Rightarrow> bool" where
  "readable bprefix kv = (prefix bprefix (fst kv) \<and> \<not> isl (snd kv))"

definition item_record :: "string \<times> (error + string) \<Rightarrow> Record" where
  "item_record kv = \<lparr>Key = fst kv, Value = (case snd kv of Inl e \<Rightarrow> [] | Inr val \<Rightarrow> val)\<rparr>"

text \<open>
  For the examples: the bbolt database after one \<^verbatim>\<open>Put\<close> of two records, the first with
  spaces around its value, and a badger database whose second item cannot be read.
\<close>

definition example_db :: bbolt_DB where
  "example_db =
     snd (BBoltBackend_Put
            [\<lparr>Key = reverse ''sub.example.com'', Value = '' 1.2.3.4 ''\<rparr>,
             \<lparr>Key = reverse ''sub.example.org'', Value = ''5.6.7.8''\<rparr>]
            bbolt_new)"

definition example_badger :: badger_DB where
  "example_badger =
     \<lparr>is_closed = False,
      items = [(''moc.a'', Inr ''1''), (''moc.b'', Inl (Error ''read failed'')), (''moc.c'', Inr ''3'')]\<rparr>"

section \<open>Properties\<close>

subsection \<open>The key transform\<close>

lemma reverse_loop_spec:
  "0 \<le> i \<Longrightarrow> j < int (length chars) \<Longrightarrow>
   length (reverse_loop chars i j) = length chars \<and>
   (\<forall>k < length chars. reverse_loop chars i j ! k =
      (if i \<le> int k \<and> int k \<le> j then chars ! nat (i + j - int k) else chars ! k))"
proof (induction chars i j rule: reverse_loop.induct)
  case (1 chars i j)
  show ?case
  proof (cases "i < j")
    case False
    then have "reverse_loop chars i j = chars" by (subst reverse_loop.simps) simp
    moreover have "\<forall>k < length chars. i \<le> int k \<and> int k \<le> j \<longrightarrow> nat (i + j - int k) = k"
      using False by auto
    ultimately show ?thesis by auto
  next
    case True
    let ?c = "chars[nat i := chars ! nat j, nat j := chars ! nat i]"
    have step: "reverse_loop chars i j = reverse_loop ?c (i + 1) (j - 1)"
      using True by (subst reverse_loop.simps) simp
    have len: "length ?c = length chars" by simp
    have IH: "length (reverse_loop ?c (i + 1) (j - 1)) = length ?c \<and>
      (\<forall>k < length ?c. reverse_loop ?c (i + 1) (j - 1) ! k =
        (if i + 1 \<le> int k \<and> int k \<le> j - 1 then ?c ! nat (i + 1 + (j - 1) - int k) else ?c ! k))"
      using "1.IH"[OF True] "1.prems" by simp
    show ?thesis
    proof (intro conjI allI impI)
      show "length (reverse_loop chars i j) = length chars"
        using step IH len by simp
    next
      fix k assume k: "k < length chars"
      have ni: "nat i < length chars" and nj: "nat j < length chars" and nij: "nat i \<noteq> nat j"
        using True "1.prems" by auto
      have IHk: "reverse_loop chars i j ! k =
        (if i + 1 \<le> int k \<and> int k \<le> j - 1 then ?c ! nat (i + 1 + (j - 1) - int k) else ?c ! k)"
        using IH k len unfolding step by metis
      show "reverse_loop chars i j ! k =
        (if i \<le> int k \<and> int k \<le> j then chars ! nat (i + j - int k) else chars ! k)"
      proof (cases "i + 1 \<le> int k \<and> int k \<le> j - 1")
        case mid: True
        then have m: "nat (i + j - int k) < length chars" "nat (i + j - int k) \<noteq> nat i"
          "nat (i + j - int k) \<noteq> nat j"
          using "1.prems" by auto
        have "reverse_loop chars i j ! k = ?c ! nat (i + j - int k)"
          unfolding IHk using mid by (simp add: algebra_simps)
        also have "\<dots> = chars ! nat (i + j - int k)"
          using m by simp
        finally show ?thesis using mid by simp
      next
        case out: False
        have e: "reverse_loop chars i j ! k = ?c ! k"
          unfolding IHk using out by (simp only: if_False)
        consider "int k = i" | "int k = j" | "int k < i \<or> j < int k"
          using out by linarith
        then show ?thesis
        proof cases
          case 1
          then have "k = nat i" by simp
          then show ?thesis using e ni nj nij 1 True by (simp add: nth_list_update)
        next
          case 2
          then have "k = nat j" by simp
          then show ?thesis using e ni nj nij 2 True by (simp add: nth_list_update)
        next
          case 3
          then have "k \<noteq> nat i" "k \<noteq> nat j" using "1.prems" True by linarith+
          then show ?thesis using e 3 by auto
        qed
      qed
    qed
  qed
qed

lemma reverse_loop_rev: "reverse_loop chars 0 (int (length chars) - 1) = rev chars"
proof (rule nth_equalityI)
  show "length (reverse_loop chars 0 (int (length chars) - 1)) = length (rev chars)"
    using reverse_loop_spec[of 0 "int (length chars) - 1" chars] by simp
next
  fix k assume "k < length (reverse_loop chars 0 (int (length chars) - 1))"
  then have k: "k < length chars"
    using reverse_loop_spec[of 0 "int (length chars) - 1" chars] by simp
  then have "reverse_loop chars 0 (int (length chars) - 1) ! k
             = chars ! nat (int (length chars) - 1 - int k)"
    using reverse_loop_spec[of 0 "int (length chars) - 1" chars] by simp
  also have "nat (int (length chars) - 1 - int k) = length chars - Suc k"
    using k by linarith
  finally show "reverse_loop chars 0 (int (length chars) - 1) ! k = rev chars ! k"
    using k by (simp add: rev_nth)
qed

lemma mod_shift: "0 \<le> a \<Longrightarrow> a < m \<Longrightarrow> (k * m + a) mod m = (a::int)"
  by simp

lemma div_shift: "0 \<le> a \<Longrightarrow> a < m \<Longrightarrow> (k * m + a) div m = (k::int)"
  by simp

lemma split2:
  fixes r :: int
  assumes "0x80 \<le> r" "r \<le> 0x7FF"
  shows "2 \<le> r div 64" "r div 64 < 32" "0 \<le> r mod 64" "r mod 64 < 64"
    "r div 64 * 64 + r mod 64 = r"
  using assms by simp_all

lemma split3:
  fixes r :: int
  assumes "0x800 \<le> r" "r \<le> 0xFFFF"
  shows "0 \<le> r div 4096" "r div 4096 < 16" "0 \<le> r div 64 mod 64" "r div 64 mod 64 < 64"
    "0 \<le> r mod 64" "r mod 64 < 64"
    "r div 4096 * 4096 + (r div 64 mod 64) * 64 + r mod 64 = r"
proof -
  show "0 \<le> r div 4096" "r div 4096 < 16" "0 \<le> r div 64 mod 64" "r div 64 mod 64 < 64"
    "0 \<le> r mod 64" "r mod 64 < 64"
    using assms by simp_all
  define q where "q = r div 64"
  define x where "x = q div 64"
  define y where "y = q mod 64"
  define z where "z = r mod 64"
  have "r div 4096 = x"
    using zdiv_zmult2_eq[of 64 r 64] by (simp add: x_def q_def)
  moreover have "x * 64 + y = q" unfolding x_def y_def by (rule div_mult_mod_eq)
  moreover have "q * 64 + z = r" unfolding q_def z_def by (rule div_mult_mod_eq)
  ultimately have "r div 4096 * 4096 + y * 64 + z = r" by linarith
  then show "r div 4096 * 4096 + (r div 64 mod 64) * 64 + r mod 64 = r"
    unfolding y_def z_def q_def .
qed

lemma split4:
  fixes r :: int
  assumes "0x10000 \<le> r" "r \<le> 0x10FFFF"
  shows "0 \<le> r div 262144" "r div 262144 < 8" "0 \<le> r div 4096 mod 64" "r div 4096 mod 64 < 64"
    "0 \<le> r div 64 mod 64" "r div 64 mod 64 < 64" "0 \<le> r mod 64" "r mod 64 < 64"
    "r div 262144 * 262144 + (r div 4096 mod 64) * 4096 + (r div 64 mod 64) * 64 + r mod 64 = r"
proof -
  show "0 \<le> r div 262144" "r div 262144 < 8" "0 \<le> r div 4096 mod 64" "r div 4096 mod 64 < 64"
    "0 \<le> r div 64 mod 64" "r div 64 mod 64 < 64" "0 \<le> r mod 64" "r mod 64 < 64"
    using assms by simp_all
  define q where "q = r div 64"
  define p where "p = q div 64"
  define x where "x = p div 64"
  define w where "w = p mod 64"
  define y where "y = q mod 64"
  define z where "z = r mod 64"
  have p: "r div 4096 = p"
    using zdiv_zmult2_eq[of 64 r 64] by (simp add: p_def q_def)
  have "r div 262144 = x"
    using zdiv_zmult2_eq[of 64 r 4096] p by (simp add: x_def)
  moreover have "x * 64 + w = p" unfolding x_def w_def by (rule div_mult_mod_eq)
  moreover have "p * 64 + y = q" unfolding p_def y_def by (rule div_mult_mod_eq)
  moreover have "q * 64 + z = r" unfolding q_def z_def by (rule div_mult_mod_eq)
  ultimately have "r div 262144 * 262144 + w * 4096 + y * 64 + z = r" by linarith
  then show "r div 262144 * 262144 + (r div 4096 mod 64) * 4096 + (r div 64 mod 64) * 64 + r mod 64 = r"
    unfolding p w_def y_def z_def q_def .
qed

lemma join2:
  fixes a b :: int
  assumes "0 \<le> b" "b < 64"
  shows "(a * 64 + b) div 64 = a" "(a * 64 + b) mod 64 = b"
  using assms by simp_all

lemma join3:
  fixes a b c :: int
  assumes "0 \<le> b" "b < 64" "0 \<le> c" "c < 64"
  shows "(a * 4096 + b * 64 + c) div 4096 = a" "(a * 4096 + b * 64 + c) div 64 mod 64 = b"
    "(a * 4096 + b * 64 + c) mod 64 = c"
proof -
  define r where "r = a * 4096 + b * 64 + c"
  have e: "r = (a * 64 + b) * 64 + c" unfolding r_def by (simp add: algebra_simps)
  have d1: "r div 64 = a * 64 + b"
    unfolding e using assms(3,4) by (rule div_shift)
  show "(a * 4096 + b * 64 + c) mod 64 = c"
    unfolding r_def[symmetric] unfolding e using assms(3,4) by (rule mod_shift)
  show "(a * 4096 + b * 64 + c) div 64 mod 64 = b"
    unfolding r_def[symmetric] d1 using assms(1,2) by (rule mod_shift)
  have "r div 4096 = r div 64 div 64"
    using zdiv_zmult2_eq[of 64 r 64] by simp
  also have "\<dots> = a" unfolding d1 using assms(1,2) by (rule div_shift)
  finally show "(a * 4096 + b * 64 + c) div 4096 = a"
    unfolding r_def .
qed

lemma join4:
  fixes a b c d :: int
  assumes "0 \<le> b" "b < 64" "0 \<le> c" "c < 64" "0 \<le> d" "d < 64"
  shows "(a * 262144 + b * 4096 + c * 64 + d) div 262144 = a"
    "(a * 262144 + b * 4096 + c * 64 + d) div 4096 mod 64 = b"
    "(a * 262144 + b * 4096 + c * 64 + d) div 64 mod 64 = c"
    "(a * 262144 + b * 4096 + c * 64 + d) mod 64 = d"
proof -
  define r where "r = a * 262144 + b * 4096 + c * 64 + d"
  have e: "r = ((a * 64 + b) * 64 + c) * 64 + d" unfolding r_def by (simp add: algebra_simps)
  have d1: "r div 64 = (a * 64 + b) * 64 + c"
    unfolding e using assms(5,6) by (rule div_shift)
  have "r div 4096 = r div 64 div 64"
    using zdiv_zmult2_eq[of 64 r 64] by simp
  also have "\<dots> = a * 64 + b" unfolding d1 using assms(3,4) by (rule div_shift)
  finally have d2: "r div 4096 = a * 64 + b" .
  have "r div 262144 = r div 4096 div 64"
    using zdiv_zmult2_eq[of 64 r 4096] by simp
  also have "\<dots> = a" unfolding d2 using assms(1,2) by (rule div_shift)
  finally show "(a * 262144 + b * 4096 + c * 64 + d) div 262144 = a"
    unfolding r_def .
  show "(a * 262144 + b * 4096 + c * 64 + d) div 4096 mod 64 = b"
    unfolding r_def[symmetric] d2 using assms(1,2) by (rule mod_shift)
  show "(a * 262144 + b * 4096 + c * 64 + d) div 64 mod 64 = c"
    unfolding r_def[symmetric] d1 using assms(3,4) by (rule mod_shift)
  show "(a * 262144 + b * 4096 + c * 64 + d) mod 64 = d"
    unfolding r_def[symmetric] unfolding e using assms(5,6) by (rule mod_shift)
qed

lemma of_char_bounds: "0 \<le> (of_char c :: int) \<and> (of_char c :: int) < 256"
proof -
  have "(of_char c :: int) mod 256 = of_char c" by simp
  moreover have "0 \<le> (of_char c :: int) mod 256 \<and> (of_char c :: int) mod 256 < 256"
    by (intro conjI pos_mod_sign pos_mod_bound) simp_all
  ultimately show ?thesis by simp
qed

lemma of_char_char_of_int: "0 \<le> x \<Longrightarrow> x < 256 \<Longrightarrow> (of_char (char_of x) :: int) = (x::int)"
  by simp

lemma decoderune_two:
  assumes "0xC0 \<le> (of_char c0 :: int)" "(of_char c0 :: int) < 0xE0" "cont c1"
    "0x7F < (of_char c0 mod 32) * 64 + (of_char c1 mod 64 :: int)"
  shows "decoderune (c0 # c1 # s) = ((of_char c0 mod 32) * 64 + (of_char c1 mod 64), 2)"
  using assms by (simp add: decoderune_def)

lemma decoderune_three:
  assumes "0xE0 \<le> (of_char c0 :: int)" "(of_char c0 :: int) < 0xF0" "cont c1" "cont c2"
    "r = (of_char c0 mod 16) * 4096 + (of_char c1 mod 64) * 64 + (of_char c2 mod 64 :: int)"
    "0x7FF < r" "\<not> (0xD800 \<le> r \<and> r \<le> 0xDFFF)"
  shows "decoderune (c0 # c1 # c2 # s) = (r, 3)"
proof -
  have "\<not> ((0xC0 :: int) \<le> of_char c0 \<and> (of_char c0 :: int) < 0xE0)"
    using assms(1) by linarith
  then show ?thesis
    using assms by (simp add: decoderune_def Let_def)
qed

lemma decoderune_four:
  assumes "0xF0 \<le> (of_char c0 :: int)" "(of_char c0 :: int) < 0xF8" "cont c1" "cont c2" "cont c3"
    "r = (of_char c0 mod 8) * 262144 + (of_char c1 mod 64) * 4096
         + (of_char c2 mod 64) * 64 + (of_char c3 mod 64 :: int)"
    "0xFFFF < r" "r \<le> 0x10FFFF"
  shows "decoderune (c0 # c1 # c2 # c3 # s) = (r, 4)"
proof -
  have "\<not> ((0xC0 :: int) \<le> of_char c0 \<and> (of_char c0 :: int) < 0xE0)"
    and "\<not> ((0xE0 :: int) \<le> of_char c0 \<and> (of_char c0 :: int) < 0xF0)"
    using assms(1) by linarith+
  then show ?thesis
    using assms by (simp add: decoderune_def Let_def)
qed

lemma cont_char_of:
  fixes b :: int
  assumes "0 \<le> b" "b < 64"
  shows "cont (char_of (0x80 + b))" "(of_char (char_of (0x80 + b)) :: int) mod 64 = b"
proof -
  have c: "(of_char (char_of (0x80 + b)) :: int) = 0x80 + b"
    using assms by (intro of_char_char_of_int) auto
  show "cont (char_of (0x80 + b))"
    unfolding cont_def c using assms by simp
  show "(of_char (char_of (0x80 + b)) :: int) mod 64 = b"
    unfolding c using mod_shift[of b 64 2] assms by simp
qed

lemma decode_ascii:
  fixes r :: int
  assumes "0 \<le> r" "r \<le> 0x7F"
  shows "stringtoslicerune (char_of r # s) = r # stringtoslicerune s"
  using assms by simp

lemma lead_char_of:
  fixes a :: int
  assumes "0 \<le> a" "a < m" "0 \<le> k" "k * m + a < 256"
  shows "(of_char (char_of (k * m + a)) :: int) = k * m + a"
    "(of_char (char_of (k * m + a)) :: int) mod m = a"
proof -
  have "0 \<le> k * m" using assms by simp
  then have "0 \<le> k * m + a" using assms(1) by linarith
  then show c: "(of_char (char_of (k * m + a)) :: int) = k * m + a"
    using assms(4) by (intro of_char_char_of_int)
  show "(of_char (char_of (k * m + a)) :: int) mod m = a"
    unfolding c using assms(1,2) by (rule mod_shift)
qed

lemma decode_two:
  fixes a b :: int
  assumes "2 \<le> a" "a < 32" "0 \<le> b" "b < 64"
  shows "stringtoslicerune (char_of (0xC0 + a) # char_of (0x80 + b) # s)
         = (a * 64 + b) # stringtoslicerune s"
proof -
  have "0 \<le> a" "6 * 32 + a < 256" using assms by linarith+
  from lead_char_of[OF this(1) assms(2) _ this(2)]
  have c0: "(of_char (char_of (0xC0 + a)) :: int) = 0xC0 + a"
    and m0: "(of_char (char_of (0xC0 + a)) :: int) mod 32 = a" by simp_all
  note c1 = cont_char_of[OF assms(3,4)]
  have big: "0x7F < a * 64 + b" using assms by linarith
  have r0: "0xC0 \<le> 0xC0 + a" "0xC0 + a < 0xE0" using assms(1,2) by linarith+
  have d: "decoderune (char_of (0xC0 + a) # char_of (0x80 + b) # s) = (a * 64 + b, 2)"
    using decoderune_two[of "char_of (0xC0 + a)" "char_of (0x80 + b)" s]
    unfolding m0 c1(2) unfolding c0 using r0 c1(1) big by simp
  have "\<not> (0xC0 + a < 0x80)" using assms by linarith
  then show ?thesis
    by (simp only: stringtoslicerune.simps c0 d if_False fst_conv snd_conv) simp
qed

lemma decode_three:
  fixes a b c :: int
  assumes "0 \<le> a" "a < 16" "0 \<le> b" "b < 64" "0 \<le> c" "c < 64"
    "0x7FF < a * 4096 + b * 64 + c" "\<not> (0xD800 \<le> a * 4096 + b * 64 + c \<and> a * 4096 + b * 64 + c \<le> 0xDFFF)"
  shows "stringtoslicerune (char_of (0xE0 + a) # char_of (0x80 + b) # char_of (0x80 + c) # s)
         = (a * 4096 + b * 64 + c) # stringtoslicerune s"
proof -
  have "14 * 16 + a < 256" using assms by linarith
  from lead_char_of[OF assms(1,2) _ this]
  have c0: "(of_char (char_of (0xE0 + a)) :: int) = 0xE0 + a"
    and m0: "(of_char (char_of (0xE0 + a)) :: int) mod 16 = a" by simp_all
  note c1 = cont_char_of[OF assms(3,4)]
  note c2 = cont_char_of[OF assms(5,6)]
  have r0: "0xE0 \<le> (of_char (char_of (0xE0 + a)) :: int)" "(of_char (char_of (0xE0 + a)) :: int) < 0xF0"
    unfolding c0 using assms(1,2) by linarith+
  have d: "decoderune (char_of (0xE0 + a) # char_of (0x80 + b) # char_of (0x80 + c) # s)
           = (a * 4096 + b * 64 + c, 3)"
    by (rule decoderune_three[OF r0 c1(1) c2(1) _ assms(7,8)]) (simp only: m0 c1(2) c2(2))
  have "\<not> (0xE0 + a < 0x80)" using assms by linarith
  then show ?thesis
    by (simp only: stringtoslicerune.simps c0 d if_False fst_conv snd_conv) simp
qed

lemma decode_four:
  fixes a b c d :: int
  assumes "0 \<le> a" "a < 8" "0 \<le> b" "b < 64" "0 \<le> c" "c < 64" "0 \<le> d" "d < 64"
    "0xFFFF < a * 262144 + b * 4096 + c * 64 + d" "a * 262144 + b * 4096 + c * 64 + d \<le> 0x10FFFF"
  shows "stringtoslicerune (char_of (0xF0 + a) # char_of (0x80 + b) # char_of (0x80 + c)
            # char_of (0x80 + d) # s)
         = (a * 262144 + b * 4096 + c * 64 + d) # stringtoslicerune s"
proof -
  have "30 * 8 + a < 256" using assms by linarith
  from lead_char_of[OF assms(1,2) _ this]
  have c0: "(of_char (char_of (0xF0 + a)) :: int) = 0xF0 + a"
    and m0: "(of_char (char_of (0xF0 + a)) :: int) mod 8 = a" by simp_all
  note c1 = cont_char_of[OF assms(3,4)]
  note c2 = cont_char_of[OF assms(5,6)]
  note c3 = cont_char_of[OF assms(7,8)]
  have r0: "0xF0 \<le> (of_char (char_of (0xF0 + a)) :: int)" "(of_char (char_of (0xF0 + a)) :: int) < 0xF8"
    unfolding c0 using assms(1,2) by linarith+
  have dd: "decoderune (char_of (0xF0 + a) # char_of (0x80 + b) # char_of (0x80 + c)
              # char_of (0x80 + d) # s)
           = (a * 262144 + b * 4096 + c * 64 + d, 4)"
    by (rule decoderune_four[OF r0 c1(1) c2(1) c3(1) _ assms(9,10)]) (simp only: m0 c1(2) c2(2) c3(2))
  have "\<not> (0xF0 + a < 0x80)" using assms by linarith
  then show ?thesis
    by (simp only: stringtoslicerune.simps c0 dd if_False fst_conv snd_conv) simp
qed

lemma decode_encoderune:
  assumes "valid_rune r"
  shows "stringtoslicerune (encoderune r @ s) = r # stringtoslicerune s"
proof -
  have v: "0 \<le> r" "r \<le> 0x10FFFF" "\<not> (0xD800 \<le> r \<and> r \<le> 0xDFFF)"
    using assms by (simp_all add: valid_rune_def)
  have bad: "(r < 0 \<or> 0x10FFFF < r \<or> (0xD800 \<le> r \<and> r \<le> 0xDFFF)) = False"
    using assms unfolding valid_rune_def by auto
  consider "r \<le> 0x7F" | "0x80 \<le> r" "r \<le> 0x7FF" | "0x800 \<le> r" "r \<le> 0xFFFF" | "0x10000 \<le> r"
    by linarith
  then show ?thesis
  proof cases
    case 1
    then have "encoderune r = [char_of r]" using v by (simp add: encoderune_def)
    then show ?thesis using decode_ascii[OF v(1) 1] by simp
  next
    case 2
    then have e: "encoderune r = [char_of (0xC0 + r div 64), char_of (0x80 + r mod 64)]"
      using v by (simp add: encoderune_def)
    note s = split2[OF 2]
    show ?thesis
      unfolding e using decode_two[OF s(1-4), of s] s(5) by simp
  next
    case 3
    then have e: "encoderune r = [char_of (0xE0 + r div 4096), char_of (0x80 + (r div 64) mod 64),
         char_of (0x80 + r mod 64)]"
      unfolding encoderune_def bad using v(1,2) by simp
    note s = split3[OF 3]
    have "0x7FF < r div 4096 * 4096 + (r div 64 mod 64) * 64 + r mod 64"
      "\<not> (0xD800 \<le> r div 4096 * 4096 + (r div 64 mod 64) * 64 + r mod 64
          \<and> r div 4096 * 4096 + (r div 64 mod 64) * 64 + r mod 64 \<le> 0xDFFF)"
      unfolding s(7) using 3 v by linarith+
    from decode_three[OF s(1-6) this, of s] show ?thesis
      unfolding e s(7) by simp
  next
    case 4
    then have e: "encoderune r = [char_of (0xF0 + r div 262144), char_of (0x80 + (r div 4096) mod 64),
         char_of (0x80 + (r div 64) mod 64), char_of (0x80 + r mod 64)]"
      unfolding encoderune_def bad using v(1,2) by simp
    note s = split4[OF 4 v(2)]
    have "0xFFFF < r div 262144 * 262144 + (r div 4096 mod 64) * 4096 + (r div 64 mod 64) * 64 + r mod 64"
      "r div 262144 * 262144 + (r div 4096 mod 64) * 4096 + (r div 64 mod 64) * 64 + r mod 64 \<le> 0x10FFFF"
      unfolding s(9) using 4 v by linarith+
    from decode_four[OF s(1-8) this, of s] show ?thesis
      unfolding e s(9) by simp
  qed
qed

lemma decode_slicerunetostring:
  "\<forall>r \<in> set rs. valid_rune r \<Longrightarrow> stringtoslicerune (slicerunetostring rs @ s) = rs @ stringtoslicerune s"
  by (induction rs) (simp_all add: slicerunetostring_def decode_encoderune)

lemma lead_mod:
  fixes b :: int
  assumes "k * m \<le> b" "b < k * m + m"
  shows "b mod m = b - k * m"
proof -
  have "(k * m + (b - k * m)) mod m = b - k * m"
    using assms by (intro mod_shift) linarith+
  then show ?thesis by simp
qed

lemma cont_mod:
  assumes "cont c"
  shows "0x80 + (of_char c :: int) mod 64 = of_char c" "0 \<le> (of_char c :: int) mod 64"
    "(of_char c :: int) mod 64 < 64"
proof -
  have "2 * 64 \<le> (of_char c :: int)" "(of_char c :: int) < 2 * 64 + 64"
    using assms by (simp_all add: cont_def)
  from lead_mod[OF this] show "0x80 + (of_char c :: int) mod 64 = of_char c" by simp
  show "0 \<le> (of_char c :: int) mod 64" "(of_char c :: int) mod 64 < 64" by simp_all
qed

lemma decoderune_cases [case_names err two three four]:
  obtains "decoderune s = (runeError, 1)"
  | c0 c1 t where "s = c0 # c1 # t" "0xC0 \<le> (of_char c0 :: int)" "(of_char c0 :: int) < 0xE0"
      "cont c1" "0x7F < (of_char c0 mod 32) * 64 + (of_char c1 mod 64 :: int)"
      "decoderune s = ((of_char c0 mod 32) * 64 + (of_char c1 mod 64), 2)"
  | c0 c1 c2 t where "s = c0 # c1 # c2 # t" "0xE0 \<le> (of_char c0 :: int)" "(of_char c0 :: int) < 0xF0"
      "cont c1" "cont c2"
      "0x7FF < (of_char c0 mod 16) * 4096 + (of_char c1 mod 64) * 64 + (of_char c2 mod 64 :: int)"
      "\<not> (0xD800 \<le> (of_char c0 mod 16) * 4096 + (of_char c1 mod 64) * 64 + (of_char c2 mod 64 :: int)
          \<and> (of_char c0 mod 16) * 4096 + (of_char c1 mod 64) * 64 + (of_char c2 mod 64 :: int) \<le> 0xDFFF)"
      "decoderune s = ((of_char c0 mod 16) * 4096 + (of_char c1 mod 64) * 64 + (of_char c2 mod 64), 3)"
  | c0 c1 c2 c3 t where "s = c0 # c1 # c2 # c3 # t" "0xF0 \<le> (of_char c0 :: int)" "(of_char c0 :: int) < 0xF8"
      "cont c1" "cont c2" "cont c3"
      "0xFFFF < (of_char c0 mod 8) * 262144 + (of_char c1 mod 64) * 4096
                + (of_char c2 mod 64) * 64 + (of_char c3 mod 64 :: int)"
      "(of_char c0 mod 8) * 262144 + (of_char c1 mod 64) * 4096
                + (of_char c2 mod 64) * 64 + (of_char c3 mod 64 :: int) \<le> 0x10FFFF"
      "decoderune s = ((of_char c0 mod 8) * 262144 + (of_char c1 mod 64) * 4096
                + (of_char c2 mod 64) * 64 + (of_char c3 mod 64), 4)"
proof (cases "decoderune s = (runeError, 1)")
  case True
  then show ?thesis using that(1) by blast
next
  case ne: False
  then obtain c0 s1 where s: "s = c0 # s1"
    by (cases s) (auto simp: decoderune_def)
  let ?b0 = "of_char c0 :: int"
  consider "0xC0 \<le> ?b0 \<and> ?b0 < 0xE0" | "0xE0 \<le> ?b0 \<and> ?b0 < 0xF0" | "0xF0 \<le> ?b0 \<and> ?b0 < 0xF8"
    | "\<not> (0xC0 \<le> ?b0 \<and> ?b0 < 0xE0) \<and> \<not> (0xE0 \<le> ?b0 \<and> ?b0 < 0xF0) \<and> \<not> (0xF0 \<le> ?b0 \<and> ?b0 < 0xF8)"
    by blast
  then show ?thesis
  proof cases
    case 1
    then obtain c1 t where s1: "s1 = c1 # t"
      using ne s by (cases s1) (auto simp: decoderune_def)
    have "cont c1 \<and> 0x7F < (?b0 mod 32) * 64 + (of_char c1 mod 64 :: int)"
      using ne 1 unfolding s s1 decoderune_def by (auto simp: Let_def split: if_splits)
    then show ?thesis
      using that(2)[of c0 c1 t] 1 decoderune_two[of c0 c1 t] unfolding s s1 by blast
  next
    case 2
    then have n1: "\<not> (0xC0 \<le> ?b0 \<and> ?b0 < 0xE0)" by linarith
    obtain c1 c2 t where s1: "s1 = c1 # c2 # t"
      using ne s 2 n1 by (cases s1; cases "tl s1") (auto simp: decoderune_def)
    let ?r = "(?b0 mod 16) * 4096 + (of_char c1 mod 64) * 64 + (of_char c2 mod 64 :: int)"
    have c: "cont c1 \<and> cont c2 \<and> 0x7FF < ?r \<and> \<not> (0xD800 \<le> ?r \<and> ?r \<le> 0xDFFF)"
      using ne 2 n1 unfolding s s1 decoderune_def by (simp add: Let_def split: if_splits)
    then have "decoderune s = (?r, 3)"
      unfolding s s1 using 2 by (intro decoderune_three) simp_all
    then show ?thesis
      using that(3)[of c0 c1 c2 t] 2 c unfolding s s1 by blast
  next
    case 3
    then have n1: "\<not> (0xC0 \<le> ?b0 \<and> ?b0 < 0xE0)" and n2: "\<not> (0xE0 \<le> ?b0 \<and> ?b0 < 0xF0)"
      by linarith+
    obtain c1 c2 c3 t where s1: "s1 = c1 # c2 # c3 # t"
      using ne s 3 n1 n2 by (cases s1; cases "tl s1"; cases "tl (tl s1)") (auto simp: decoderune_def)
    let ?r = "(?b0 mod 8) * 262144 + (of_char c1 mod 64) * 4096
                + (of_char c2 mod 64) * 64 + (of_char c3 mod 64 :: int)"
    have c: "cont c1 \<and> cont c2 \<and> cont c3 \<and> 0xFFFF < ?r \<and> ?r \<le> 0x10FFFF"
      using ne 3 n1 n2 unfolding s s1 decoderune_def by (simp add: Let_def split: if_splits)
    then have "decoderune s = (?r, 4)"
      unfolding s s1 using 3 by (intro decoderune_four) simp_all
    then show ?thesis
      using that(4)[of c0 c1 c2 c3 t] 3 c unfolding s s1 by blast
  next
    case 4
    then have f: "(0xC0 \<le> ?b0 \<and> ?b0 < 0xE0) = False" "(0xE0 \<le> ?b0 \<and> ?b0 < 0xF0) = False"
      "(0xF0 \<le> ?b0 \<and> ?b0 < 0xF8) = False"
      by blast+
    have "decoderune s = (runeError, 1)"
      unfolding s decoderune_def list.case Let_def f if_False ..
    then show ?thesis using ne by blast
  qed
qed

lemma mod_bounds:
  fixes x :: int
  shows "0 \<le> x mod 8" "x mod 8 < 8" "0 \<le> x mod 16" "x mod 16 < 16" "0 \<le> x mod 32" "x mod 32 < 32"
    "0 \<le> x mod 64" "x mod 64 < 64"
  by simp_all

lemma valid_runeError: "valid_rune runeError"
  by (simp add: valid_rune_def runeError_def)

lemma decoderune_valid: "valid_rune (fst (decoderune s))"
proof (cases s rule: decoderune_cases)
  case err
  then show ?thesis by (simp add: valid_runeError)
next
  case (two c0 c1 t)
  define a where "a = (of_char c0 :: int) mod 32"
  define b where "b = (of_char c1 :: int) mod 64"
  have "0 \<le> a" "a < 32" "0 \<le> b" "b < 64" unfolding a_def b_def by simp_all
  then have "valid_rune (a * 64 + b)" unfolding valid_rune_def by linarith
  then show ?thesis using two(6) unfolding a_def b_def by simp
next
  case (three c0 c1 c2 t)
  define a where "a = (of_char c0 :: int) mod 16"
  define b where "b = (of_char c1 :: int) mod 64"
  define c where "c = (of_char c2 :: int) mod 64"
  have "0 \<le> a" "a < 16" "0 \<le> b" "b < 64" "0 \<le> c" "c < 64" unfolding a_def b_def c_def by simp_all
  moreover have "\<not> (0xD800 \<le> a * 4096 + b * 64 + c \<and> a * 4096 + b * 64 + c \<le> 0xDFFF)"
    using three(7) unfolding a_def b_def c_def .
  ultimately have "valid_rune (a * 4096 + b * 64 + c)" unfolding valid_rune_def by linarith
  then show ?thesis using three(8) unfolding a_def b_def c_def by simp
next
  case (four c0 c1 c2 c3 t)
  then show ?thesis unfolding valid_rune_def by simp
qed

lemma stringtoslicerune_valid: "\<forall>r \<in> set (stringtoslicerune s). valid_rune r"
proof (induction s rule: stringtoslicerune.induct)
  case 1
  then show ?case by simp
next
  case (2 c s)
  show ?case
  proof (cases "(of_char c :: int) < 0x80")
    case True
    have "0 \<le> (of_char c :: int)" using of_char_bounds by blast
    then have "valid_rune (of_char c)" using True unfolding valid_rune_def by linarith
    then show ?thesis using True 2(1) by simp
  next
    case False
    then show ?thesis using 2(2) decoderune_valid[of "c # s"] by simp
  qed
qed

lemma encoderune_decoderune:
  assumes "decoderune s \<noteq> (runeError, 1)"
  shows "encoderune (fst (decoderune s)) = take (snd (decoderune s)) s"
proof (cases s rule: decoderune_cases)
  case err
  then show ?thesis using assms by simp
next
  case (two c0 c1 t)
  define a where "a = (of_char c0 :: int) mod 32"
  define b where "b = (of_char c1 :: int) mod 64"
  have bd: "0 \<le> a" "a < 32" "0 \<le> b" "b < 64" unfolding a_def b_def by simp_all
  have "6 * 32 \<le> (of_char c0 :: int)" "(of_char c0 :: int) < 6 * 32 + 32" using two(2,3) by simp_all
  from lead_mod[OF this] have a0: "0xC0 + a = of_char c0" unfolding a_def by simp
  have b0: "0x80 + b = of_char c1" unfolding b_def using cont_mod(1)[OF two(4)] .
  have big: "0x7F < a * 64 + b" using two(5) unfolding a_def b_def .
  have r: "0 \<le> a * 64 + b" "\<not> a * 64 + b \<le> 0x7F" "a * 64 + b \<le> 0x7FF" using bd big by linarith+
  have "encoderune (a * 64 + b) = [char_of (0xC0 + (a * 64 + b) div 64), char_of (0x80 + (a * 64 + b) mod 64)]"
    unfolding encoderune_def using r by simp
  also have "\<dots> = [c0, c1]"
    unfolding join2[OF bd(3,4)] a0 b0 by simp
  finally show ?thesis using two(1,6) unfolding a_def b_def by simp
next
  case (three c0 c1 c2 t)
  define a where "a = (of_char c0 :: int) mod 16"
  define b where "b = (of_char c1 :: int) mod 64"
  define c where "c = (of_char c2 :: int) mod 64"
  define r where "r = a * 4096 + b * 64 + c"
  have bd: "0 \<le> a" "a < 16" "0 \<le> b" "b < 64" "0 \<le> c" "c < 64" unfolding a_def b_def c_def by simp_all
  have "14 * 16 \<le> (of_char c0 :: int)" "(of_char c0 :: int) < 14 * 16 + 16" using three(2,3) by simp_all
  from lead_mod[OF this] have a0: "0xE0 + a = of_char c0" unfolding a_def by simp
  have b0: "0x80 + b = of_char c1" unfolding b_def using cont_mod(1)[OF three(4)] .
  have c0: "0x80 + c = of_char c2" unfolding c_def using cont_mod(1)[OF three(5)] .
  have big: "0x7FF < r" using three(6) unfolding r_def a_def b_def c_def .
  have ns: "\<not> (0xD800 \<le> r \<and> r \<le> 0xDFFF)" using three(7) unfolding r_def a_def b_def c_def .
  have rr: "(0 \<le> r \<and> r \<le> 0x7F) = False" "(0 \<le> r \<and> r \<le> 0x7FF) = False"
    "(r < 0 \<or> 0x10FFFF < r \<or> (0xD800 \<le> r \<and> r \<le> 0xDFFF)) = False" "r \<le> 0xFFFF"
    using bd big ns unfolding r_def by auto
  have "encoderune r = [char_of (0xE0 + r div 4096), char_of (0x80 + (r div 64) mod 64),
         char_of (0x80 + r mod 64)]"
    unfolding encoderune_def rr using rr(4) by simp
  also have "\<dots> = [c0, c1, c2]"
    unfolding r_def join3[OF bd(3-6)] a0 b0 c0 by simp
  finally show ?thesis using three(1,8) unfolding r_def a_def b_def c_def by simp
next
  case (four c0 c1 c2 c3 t)
  define a where "a = (of_char c0 :: int) mod 8"
  define b where "b = (of_char c1 :: int) mod 64"
  define c where "c = (of_char c2 :: int) mod 64"
  define d where "d = (of_char c3 :: int) mod 64"
  define r where "r = a * 262144 + b * 4096 + c * 64 + d"
  have bd: "0 \<le> a" "a < 8" "0 \<le> b" "b < 64" "0 \<le> c" "c < 64" "0 \<le> d" "d < 64"
    unfolding a_def b_def c_def d_def by simp_all
  have "30 * 8 \<le> (of_char c0 :: int)" "(of_char c0 :: int) < 30 * 8 + 8" using four(2,3) by simp_all
  from lead_mod[OF this] have a0: "0xF0 + a = of_char c0" unfolding a_def by simp
  have b0: "0x80 + b = of_char c1" unfolding b_def using cont_mod(1)[OF four(4)] .
  have c0: "0x80 + c = of_char c2" unfolding c_def using cont_mod(1)[OF four(5)] .
  have d0: "0x80 + d = of_char c3" unfolding d_def using cont_mod(1)[OF four(6)] .
  have big: "0xFFFF < r" using four(7) unfolding r_def a_def b_def c_def d_def .
  have le: "r \<le> 0x10FFFF" using four(8) unfolding r_def a_def b_def c_def d_def .
  have rr: "(0 \<le> r \<and> r \<le> 0x7F) = False" "(0 \<le> r \<and> r \<le> 0x7FF) = False"
    "(r < 0 \<or> 0x10FFFF < r \<or> (0xD800 \<le> r \<and> r \<le> 0xDFFF)) = False" "(r \<le> 0xFFFF) = False"
    using big le by auto
  have "encoderune r = [char_of (0xF0 + r div 262144), char_of (0x80 + (r div 4096) mod 64),
         char_of (0x80 + (r div 64) mod 64), char_of (0x80 + r mod 64)]"
    unfolding encoderune_def rr by simp
  also have "\<dots> = [c0, c1, c2, c3]"
    unfolding r_def join4[OF bd(3-8)] a0 b0 c0 d0 by simp
  finally show ?thesis using four(1,9) unfolding r_def a_def b_def c_def d_def by simp
qed

lemma slicerunetostring_stringtoslicerune:
  "valid_utf8 s \<Longrightarrow> slicerunetostring (stringtoslicerune s) = s"
proof (induction s rule: stringtoslicerune.induct)
  case 1
  then show ?case by (simp add: slicerunetostring_def)
next
  case (2 c s)
  show ?case
  proof (cases "(of_char c :: int) < 0x80")
    case True
    have "0 \<le> (of_char c :: int)" using of_char_bounds by blast
    then have "encoderune (of_char c) = [c]" using True by (simp add: encoderune_def)
    moreover have "slicerunetostring (stringtoslicerune s) = s"
      using 2(1)[OF True] 2(3) True by simp
    ultimately show ?thesis using True by (simp add: slicerunetostring_def)
  next
    case False
    let ?d = "decoderune (c # s)"
    have ne: "?d \<noteq> (runeError, 1)" and v: "valid_utf8 (drop (snd ?d - 1) s)"
      using 2(3) False by simp_all
    have w: "1 \<le> snd ?d" by (cases "c # s" rule: decoderune_cases) simp_all
    have "slicerunetostring (stringtoslicerune (c # s))
          = encoderune (fst ?d) @ slicerunetostring (stringtoslicerune (drop (snd ?d - 1) s))"
      using False by (simp add: slicerunetostring_def)
    also have "\<dots> = take (snd ?d) (c # s) @ drop (snd ?d - 1) s"
      using encoderune_decoderune[OF ne] 2(2)[OF False v] by simp
    also have "drop (snd ?d - 1) s = drop (snd ?d) (c # s)"
      using w by (cases "snd ?d") simp_all
    finally show ?thesis by simp
  qed
qed

lemma reverse_runes: "stringtoslicerune (reverse s) = rev (stringtoslicerune s)"
proof -
  have "\<forall>r \<in> set (rev (stringtoslicerune s)). valid_rune r"
    using stringtoslicerune_valid[of s] by simp
  from decode_slicerunetostring[OF this, of "[]"] show ?thesis
    by (simp add: reverse_def Let_def reverse_loop_rev)
qed

lemma reverse_reverse: "reverse (reverse s) = slicerunetostring (stringtoslicerune s)"
  using reverse_runes[of s]
  by (simp add: reverse_def[of "reverse s"] Let_def reverse_loop_rev)


text \<open>
  C1 (as amended). \<^verbatim>\<open>reverse\<close> reverses the sequence of code points that Go decodes from
  its argument, for every string. Applied twice it gives back the decoded code points
  re-encoded; that is the string itself when the string is well-formed UTF-8.
\<close>

theorem reverse_twice_valid_utf8:
  "stringtoslicerune (reverse s) = rev (stringtoslicerune s) \<and>
   reverse (reverse s) = slicerunetostring (stringtoslicerune s) \<and>
   (valid_utf8 s \<longrightarrow> reverse (reverse s) = s)"
  using reverse_runes reverse_reverse slicerunetostring_stringtoslicerune by simp

theorem reverse_twice_valid_utf8_witness:
  "valid_utf8 [CHR 0x61, CHR 0xC3, CHR 0xA9] \<and>
   reverse (reverse [CHR 0x61, CHR 0xC3, CHR 0xA9]) = [CHR 0x61, CHR 0xC3, CHR 0xA9]"
proof -
  have v: "valid_utf8 [CHR 0x61, CHR 0xC3, CHR 0xA9]" by code_simp
  with reverse_twice_valid_utf8[of "[CHR 0x61, CHR 0xC3, CHR 0xA9]"] show ?thesis by blast
qed

text \<open>
  C1 as stated fails on a string that is not well-formed UTF-8: the byte \<^verbatim>\<open>0xFF\<close> decodes to
  \<^verbatim>\<open>U+FFFD\<close>, which is written back as three bytes.
\<close>

theorem reverse_twice_counterexample:
  "reverse (reverse [CHR 0xFF]) = [CHR 0xEF, CHR 0xBF, CHR 0xBD] \<and>
   reverse (reverse [CHR 0xFF]) \<noteq> [CHR 0xFF]"
  by code_simp

subsection \<open>The loader\<close>

lemma put_batch_fields [simp]:
  "input (put_batch be w recs st) = input st"
  "parsers (put_batch be w recs st) = parsers st"
  "writers (put_batch be w recs st) = writers st"
  "totalRecords (put_batch be w recs st) = totalRecords st"
  "accepted (put_batch be w recs st) = accepted st"
  "puts (put_batch be w recs st) = puts st @ [(w, recs, fst (Put be recs (backend st)))]"
  "backend (put_batch be w recs st) = snd (Put be recs (backend st))"
  by (simp_all add: put_batch_def split: prod.splits)

lemma writer_recv_fields [simp]:
  "input (writer_recv be B w buf r st) = input st"
  "parsers (writer_recv be B w buf r st) = parsers st"
  "writers (writer_recv be B w buf r st) =
     (writers st)[w := Some (if int (length buf) + 1 = B then [] else buf @ [r])]"
  "totalRecords (writer_recv be B w buf r st) = totalRecords st + 1"
  "accepted (writer_recv be B w buf r st) = accepted st @ [(w, r)]"
  "puts (writer_recv be B w buf r st) =
     (if int (length buf) + 1 = B
      then puts st @ [(w, buf @ [r], fst (Put be (buf @ [r]) (backend st)))] else puts st)"
  by (simp_all add: writer_recv_def Let_def)

lemma writer_drain_fields [simp]:
  "input (writer_drain be w buf st) = input st"
  "parsers (writer_drain be w buf st) = parsers st"
  "writers (writer_drain be w buf st) = (writers st)[w := None]"
  "totalRecords (writer_drain be w buf st) = totalRecords st"
  "accepted (writer_drain be w buf st) = accepted st"
  "puts (writer_drain be w buf st) =
     (if buf \<noteq> [] then puts st @ [(w, buf, fst (Put be buf (backend st)))] else puts st)"
  by (simp_all add: writer_drain_def Let_def)

lemma writer_recv_backend:
  "backend (writer_recv be B w buf r st) =
     (if int (length buf) + 1 = B then snd (Put be (buf @ [r]) (backend st)) else backend st)"
  by (simp add: writer_recv_def Let_def)

lemma writer_drain_backend:
  "backend (writer_drain be w buf st) =
     (if buf \<noteq> [] then snd (Put be buf (backend st)) else backend st)"
  by (simp add: writer_drain_def Let_def)

lemma puts_of_simps [simp]:
  "puts_of w [] = []"
  "puts_of w (ps @ [(w', batch, e)]) = (if w' = w then puts_of w ps @ [batch] else puts_of w ps)"
  by (simp_all add: puts_of_def)

lemma accepted_by_simps [simp]:
  "accepted_by w [] = []"
  "accepted_by w (acc @ [(w', r)]) = (if w' = w then accepted_by w acc @ [r] else accepted_by w acc)"
  by (simp_all add: accepted_by_def)

lemma div_qr: "m < b \<Longrightarrow> (k * b + m) div b = (k::nat)"
  by simp

lemma ceil_div_eq:
  assumes "0 < b"
  shows "ceil_div n b = n div b + (if n mod b = 0 then 0 else 1)"
proof -
  define q where "q = n div b"
  define r where "r = n mod b"
  have n: "n = q * b + r" and r: "r < b" using assms by (simp_all add: q_def r_def)
  show ?thesis
  proof (cases "r = 0")
    case True
    define m where "m = b - 1"
    have m: "m < b" using assms by (simp add: m_def)
    have "n + b - 1 = q * b + m" using n True assms by (simp add: m_def)
    then have "(n + b - 1) div b = q" using div_qr[OF m, of q] by (simp only:)
    then show ?thesis using True by (simp add: ceil_div_def q_def r_def)
  next
    case False
    define m where "m = r - 1"
    have m: "m < b" using r by (simp add: m_def)
    have "n + b - 1 = (q + 1) * b + m" using n False by (simp add: m_def)
    then have "(n + b - 1) div b = q + 1" using div_qr[OF m, of "q + 1"] by (simp only:)
    then show ?thesis using False by (simp add: ceil_div_def q_def r_def)
  qed
qed

lemma length_concat_full:
  assumes "list_all (\<lambda>batch. length batch = b) ps"
  shows "length (concat ps) = length ps * b"
  using assms by (induction ps) simp_all

lemma writer_inv_cong:
  assumes "writers st' = writers st" "puts st' = puts st" "accepted st' = accepted st"
  shows "writer_inv B st' w = writer_inv B st w"
  using assms by (simp add: writer_inv_def)

lemma count_full:
  assumes "0 < b" "list_all (\<lambda>batch. length batch = b) ps" "length buf < b"
    "length (concat ps @ buf) = n"
  shows "n div b = length ps" "n mod b = length buf"
proof -
  have "n = length ps * b + length buf"
    using assms(4) length_concat_full[OF assms(2)] by simp
  then show "n div b = length ps" "n mod b = length buf"
    using assms(3) by simp_all
qed

lemma winv_recv_flush:
  assumes "winv B (Some buf) ps acc" "int (length buf) + 1 = B"
  shows "winv B (Some []) (ps @ [buf @ [r]]) (acc @ [r])"
proof -
  have pos: "0 < B" using assms(2) by linarith
  then have "concat ps @ buf = acc" "list_all (\<lambda>batch. int (length batch) = B) ps"
    using assms(1) by (simp_all add: winv_def)
  then show ?thesis using pos assms(2) by (simp add: winv_def)
qed

lemma winv_recv_keep:
  assumes "winv B (Some buf) ps acc" "int (length buf) + 1 \<noteq> B"
  shows "winv B (Some (buf @ [r])) ps (acc @ [r])"
proof (cases "0 < B")
  case True
  then have "concat ps @ buf = acc" "list_all (\<lambda>batch. int (length batch) = B) ps"
    "int (length buf) < B"
    using assms(1) by (simp_all add: winv_def)
  moreover have "int (length buf) + 1 < B" using \<open>int (length buf) < B\<close> assms(2) by linarith
  ultimately show ?thesis using True by (simp add: winv_def)
next
  case False
  then have "concat ps @ buf = acc" "ps = []"
    using assms(1) by (auto simp add: winv_def)
  then show ?thesis using False by (simp add: winv_def)
qed

lemma winv_drain:
  assumes "winv B (Some buf) ps acc"
  shows "winv B None (if buf \<noteq> [] then ps @ [buf] else ps) acc"
proof (cases "0 < B")
  case pos: True
  define b where "b = nat B"
  have b: "0 < b" "B = int b" using pos by (simp_all add: b_def)
  have i: "concat ps @ buf = acc" "list_all (\<lambda>batch. int (length batch) = B) ps"
    "int (length buf) < B"
    using assms pos by (simp_all add: winv_def)
  have full: "list_all (\<lambda>batch. length batch = b) ps" and short: "length buf < b"
    using i(2,3) unfolding b(2) by (simp_all add: list_all_iff)
  have cnt: "length acc div b = length ps" "length acc mod b = length buf"
    using count_full[OF b(1) full short, of "length acc"] i(1) by simp_all
  have ne: "list_all (\<lambda>batch. batch \<noteq> []) ps"
    using full b(1) by (auto simp: list_all_iff)
  have le: "list_all (\<lambda>batch. int (length batch) \<le> B) ps"
    using i(2) by (auto simp: list_all_iff)
  have ceil: "ceil_div (length acc) b = length ps + (if buf = [] then 0 else 1)"
    using ceil_div_eq[OF b(1), of "length acc"] cnt by simp
  have bl: "list_all (\<lambda>batch. int (length batch) = B) (butlast ps)"
    using i(2) by (auto simp: list_all_iff dest: in_set_butlastD)
  show ?thesis
  proof (cases "buf = []")
    case True
    then show ?thesis using pos i(1) ne le ceil bl by (simp add: winv_def b_def)
  next
    case False
    then show ?thesis using pos i(1,2,3) ne le ceil by (simp add: winv_def b_def)
  qed
next
  case False
  then have "concat ps @ buf = acc" "ps = []"
    using assms by (auto simp add: winv_def)
  then show ?thesis using False by (simp add: winv_def)
qed

lemma writer_inv_recv:
  assumes len: "length (writers st) = writersCount" and w: "w < writersCount"
    and inv: "writer_inv B st w" and buf: "writers st ! w' = Some buf" and w': "w' < writersCount"
  shows "writer_inv B (writer_recv be B w' buf r st) w"
proof (cases "w' = w")
  case False
  then have "writers (writer_recv be B w' buf r st) ! w = writers st ! w"
    "puts_of w (puts (writer_recv be B w' buf r st)) = puts_of w (puts st)"
    "accepted_by w (accepted (writer_recv be B w' buf r st)) = accepted_by w (accepted st)"
    by simp_all
  then show ?thesis using inv unfolding writer_inv_def by (simp only:)
next
  case True
  have i: "winv B (Some buf) (puts_of w (puts st)) (accepted_by w (accepted st))"
    using inv buf True by (simp add: writer_inv_def)
  have A: "accepted_by w (accepted (writer_recv be B w' buf r st)) = accepted_by w (accepted st) @ [r]"
    using True by simp
  show ?thesis
  proof (cases "int (length buf) + 1 = B")
    case flush: True
    have W: "writers (writer_recv be B w' buf r st) ! w = Some []"
      using True flush len w by simp
    have P: "puts_of w (puts (writer_recv be B w' buf r st)) = puts_of w (puts st) @ [buf @ [r]]"
      using True flush by simp
    show ?thesis unfolding writer_inv_def W P A using winv_recv_flush[OF i flush] .
  next
    case keep: False
    have W: "writers (writer_recv be B w' buf r st) ! w = Some (buf @ [r])"
      using True keep len w by simp
    have P: "puts_of w (puts (writer_recv be B w' buf r st)) = puts_of w (puts st)"
      using True keep by simp
    show ?thesis unfolding writer_inv_def W P A using winv_recv_keep[OF i keep] .
  qed
qed

lemma writer_inv_drain:
  assumes len: "length (writers st) = writersCount" and w: "w < writersCount"
    and inv: "writer_inv B st w" and buf: "writers st ! w' = Some buf" and w': "w' < writersCount"
  shows "writer_inv B (writer_drain be w' buf st) w"
proof (cases "w' = w")
  case False
  then have "writers (writer_drain be w' buf st) ! w = writers st ! w"
    "puts_of w (puts (writer_drain be w' buf st)) = puts_of w (puts st)"
    "accepted_by w (accepted (writer_drain be w' buf st)) = accepted_by w (accepted st)"
    by simp_all
  then show ?thesis using inv unfolding writer_inv_def by (simp only:)
next
  case True
  have i: "winv B (Some buf) (puts_of w (puts st)) (accepted_by w (accepted st))"
    using inv buf True by (simp add: writer_inv_def)
  have W: "writers (writer_drain be w' buf st) ! w = None"
    using True len w by simp
  have P: "puts_of w (puts (writer_drain be w' buf st))
           = (if buf \<noteq> [] then puts_of w (puts st) @ [buf] else puts_of w (puts st))"
    using True by simp
  have A: "accepted_by w (accepted (writer_drain be w' buf st)) = accepted_by w (accepted st)"
    by simp
  show ?thesis unfolding writer_inv_def W P A using winv_drain[OF i] .
qed

lemma step_cases [case_names skip parse recv drain]:
  obtains "step be EK B st a = st"
  | i data rest rec msgs where "a = Parse i" "i < parsersCount" "parsers st ! i = None"
      "input st = data # rest" "parse_line EK data = (rec, msgs)"
      "step be EK B st a = st\<lparr>input := rest, parsers := (parsers st)[i := rec], logs := logs st @ msgs\<rparr>"
  | i w r buf where "a = Hand i w" "i < parsersCount" "w < writersCount" "parsers st ! i = Some r"
      "writers st ! w = Some buf"
      "step be EK B st a = writer_recv be B w buf r (st\<lparr>parsers := (parsers st)[i := None]\<rparr>)"
  | w buf where "a = Drain w" "w < writersCount" "parsers_done st" "writers st ! w = Some buf"
      "step be EK B st a = writer_drain be w buf st"
proof (cases a)
  case (Parse i)
  show ?thesis
  proof (cases "i < parsersCount \<and> parsers st ! i = None")
    case False
    then show ?thesis using that(1) Parse by auto
  next
    case en: True
    show ?thesis
    proof (cases "input st")
      case Nil
      then show ?thesis using that(1) Parse by simp
    next
      case (Cons data rest)
      obtain rec msgs where pl: "parse_line EK data = (rec, msgs)" by (cases "parse_line EK data")
      show ?thesis using that(2)[OF Parse _ _ Cons pl] en Parse Cons pl by simp
    qed
  qed
next
  case (Hand i w)
  show ?thesis
  proof (cases "i < parsersCount \<and> w < writersCount")
    case False
    then show ?thesis using that(1) Hand by auto
  next
    case en: True
    show ?thesis
    proof (cases "parsers st ! i")
      case None
      then show ?thesis using that(1) Hand by simp
    next
      case (Some r)
      show ?thesis
      proof (cases "writers st ! w")
        case None
        then show ?thesis using that(1) Hand Some by simp
      next
        case (Some buf)
        show ?thesis
          using that(3)[OF Hand _ _ \<open>parsers st ! i = Some r\<close> Some] en Hand
            \<open>parsers st ! i = Some r\<close> Some by simp
      qed
    qed
  qed
next
  case (Drain w)
  show ?thesis
  proof (cases "w < writersCount \<and> parsers_done st")
    case False
    then show ?thesis using that(1) Drain by auto
  next
    case en: True
    show ?thesis
    proof (cases "writers st ! w")
      case None
      then show ?thesis using that(1) Drain by simp
    next
      case (Some buf)
      show ?thesis using that(4)[OF Drain _ _ Some] en Drain Some by simp
    qed
  qed
qed

declare step.simps [simp del]

lemma step_writer_inv:
  assumes "length (writers st) = writersCount" "w < writersCount" "writer_inv B st w"
  shows "writer_inv B (step be EK B st a) w"
proof (cases rule: step_cases[where be=be and EK=EK and B=B and st=st and a=a])
  case skip
  then show ?thesis using assms(3) by simp
next
  case (parse i data rest rec msgs)
  show ?thesis unfolding parse(6) using assms(3) by (simp add: writer_inv_def)
next
  case (recv i w' r buf)
  let ?st = "st\<lparr>parsers := (parsers st)[i := None]\<rparr>"
  have "writer_inv B ?st w" using assms(3) by (simp add: writer_inv_def)
  then show ?thesis
    unfolding recv(6) using assms(1-2) recv(3,5) by (intro writer_inv_recv) simp_all
next
  case (drain w' buf)
  show ?thesis
    unfolding drain(5) using assms drain(2,4) by (intro writer_inv_drain) simp_all
qed

lemma step_lengths [simp]:
  "length (parsers (step be EK B st a)) = length (parsers st)"
  "length (writers (step be EK B st a)) = length (writers st)"
  by (cases rule: step_cases[where be=be and EK=EK and B=B and st=st and a=a]; simp)+

lemma pending_update_None:
  "i < length ps \<Longrightarrow> ps ! i = None \<Longrightarrow>
   pending (ps[i := x]) = pending ps + (case x of None \<Rightarrow> {#} | Some r \<Rightarrow> {#r#})"
proof (induction ps arbitrary: i)
  case Nil
  then show ?case by simp
next
  case (Cons p ps)
  then show ?case by (cases i) (simp_all add: pending_def)
qed

lemma pending_update_Some:
  "i < length ps \<Longrightarrow> ps ! i = Some r \<Longrightarrow> pending (ps[i := None]) + {#r#} = pending ps"
proof (induction ps arbitrary: i)
  case Nil
  then show ?case by simp
next
  case (Cons p ps)
  then show ?case by (cases i) (simp_all add: pending_def)
qed

lemma pending_all_None: "list_all (\<lambda>p. p = None) ps \<Longrightarrow> pending ps = {#}"
  by (induction ps) (simp_all add: pending_def)

lemma valid_records_Cons:
  "valid_records EK (data # rest) =
     (case fst (parse_line EK data) of None \<Rightarrow> [] | Some r \<Rightarrow> [r]) @ valid_records EK rest"
  by (simp add: valid_records_def List.map_filter_simps split: option.splits)

lemma step_flow:
  assumes "length (parsers st) = parsersCount"
  shows "flow EK (step be EK B st a) = flow EK st"
proof (cases rule: step_cases[where be=be and EK=EK and B=B and st=st and a=a])
  case skip
  then show ?thesis by simp
next
  case (parse i data rest rec msgs)
  have "pending ((parsers st)[i := rec]) = pending (parsers st) + (case rec of None \<Rightarrow> {#} | Some r \<Rightarrow> {#r#})"
    using parse(2,3) assms by (intro pending_update_None) simp_all
  moreover have "mset (valid_records EK (input st))
      = (case rec of None \<Rightarrow> {#} | Some r \<Rightarrow> {#r#}) + mset (valid_records EK rest)"
    using parse(4,5) by (simp add: valid_records_Cons split: option.splits)
  ultimately show ?thesis unfolding parse(6) flow_def by simp
next
  case (recv i w r buf)
  have "pending ((parsers st)[i := None]) + {#r#} = pending (parsers st)"
    using recv(2,4) assms by (intro pending_update_Some) simp_all
  then show ?thesis unfolding recv(6) flow_def by (simp add: ac_simps)
next
  case (drain w buf)
  then show ?thesis by (simp add: flow_def)
qed

lemma step_totalRecords:
  "totalRecords (step be EK B st a) - int (length (accepted (step be EK B st a)))
   = totalRecords st - int (length (accepted st))"
  by (cases rule: step_cases[where be=be and EK=EK and B=B and st=st and a=a]) simp_all

lemma step_ids_ok: "ids_ok st \<Longrightarrow> ids_ok (step be EK B st a)"
  by (cases rule: step_cases[where be=be and EK=EK and B=B and st=st and a=a]) (simp_all add: ids_ok_def)

lemma sum_list_delta:
  fixes c :: "'m::comm_monoid_add"
  shows "sum_list (map (\<lambda>w. if k = w then c else 0) [0..<n]) = (if k < n then c else 0)"
  by (induction n) auto

lemma partition_by_writer:
  fixes g :: "'a \<Rightarrow> 'm::comm_monoid_add"
  assumes "list_all (\<lambda>x. fst x < n) xs"
  shows "sum_list (map (\<lambda>x. g (snd x)) xs)
         = sum_list (map (\<lambda>w. sum_list (map (\<lambda>x. g (snd x)) (filter (\<lambda>x. fst x = w) xs))) [0..<n])"
  using assms
proof (induction xs)
  case Nil
  then show ?case by simp
next
  case (Cons x xs)
  let ?S = "\<lambda>w. sum_list (map (\<lambda>x. g (snd x)) (filter (\<lambda>x. fst x = w) xs))"
  have k: "fst x < n" using Cons.prems by simp
  have "sum_list (map (\<lambda>w. sum_list (map (\<lambda>x. g (snd x)) (filter (\<lambda>y. fst y = w) (x # xs)))) [0..<n])
        = sum_list (map (\<lambda>w. (if fst x = w then g (snd x) else 0) + ?S w) [0..<n])"
    by (intro arg_cong[where f = sum_list] map_cong) simp_all
  also have "\<dots> = sum_list (map (\<lambda>w. if fst x = w then g (snd x) else 0) [0..<n]) + sum_list (map ?S [0..<n])"
    by (simp add: sum_list_addf)
  also have "sum_list (map (\<lambda>w. if fst x = w then g (snd x) else 0) [0..<n]) = g (snd x)"
    using k by (simp add: sum_list_delta)
  finally show ?case using Cons by simp
qed

lemma ceil_div_add:
  assumes "0 < b"
  shows "ceil_div (m + n) b \<le> ceil_div m b + ceil_div n b"
    and "ceil_div m b + ceil_div n b \<le> ceil_div (m + n) b + 1"
proof -
  define rm where "rm = m mod b"
  define rn where "rn = n mod b"
  have r: "rm < b" "rn < b" using assms by (simp_all add: rm_def rn_def)
  have d: "(m + n) div b = m div b + n div b + (rm + rn) div b"
    unfolding rm_def rn_def by (rule div_add1_eq)
  have mo: "(m + n) mod b = (rm + rn) mod b"
    unfolding rm_def rn_def by (rule mod_add_eq[symmetric])
  have c: "ceil_div (m + n) b = m div b + n div b + (rm + rn) div b + (if (rm + rn) mod b = 0 then 0 else 1)"
    "ceil_div m b = m div b + (if rm = 0 then 0 else 1)"
    "ceil_div n b = n div b + (if rn = 0 then 0 else 1)"
    using ceil_div_eq[OF assms] d mo by (simp_all add: rm_def rn_def)
  have "ceil_div (m + n) b \<le> ceil_div m b + ceil_div n b \<and>
        ceil_div m b + ceil_div n b \<le> ceil_div (m + n) b + 1"
  proof (cases "rm + rn < b")
    case True
    then have "(rm + rn) div b = 0" "(rm + rn) mod b = rm + rn" by simp_all
    then show ?thesis unfolding c by auto
  next
    case False
    then have ge: "b \<le> rm + rn" by simp
    have lt: "rm + rn - b < b" using r by linarith
    have "(rm + rn) div b = Suc ((rm + rn - b) div b)" using le_div_geq[OF assms ge] .
    then have "(rm + rn) div b = 1" using lt by simp
    moreover have "rm \<noteq> 0" "rn \<noteq> 0" using ge r by linarith+
    ultimately show ?thesis unfolding c by auto
  qed
  then show "ceil_div (m + n) b \<le> ceil_div m b + ceil_div n b"
    and "ceil_div m b + ceil_div n b \<le> ceil_div (m + n) b + 1" by blast+
qed

lemma ceil_div_0 [simp]: "0 < b \<Longrightarrow> ceil_div 0 b = 0"
  by (simp add: ceil_div_def)

lemma sum_ceil_div_bounds:
  assumes "0 < b"
  shows "ceil_div (sum_list ns) b \<le> sum_list (map (\<lambda>n. ceil_div n b) ns)"
    and "ns \<noteq> [] \<Longrightarrow> sum_list (map (\<lambda>n. ceil_div n b) ns) + 1 \<le> ceil_div (sum_list ns) b + length ns"
proof -
  show "ceil_div (sum_list ns) b \<le> sum_list (map (\<lambda>n. ceil_div n b) ns)"
  proof (induction ns)
    case Nil
    then show ?case using assms by simp
  next
    case (Cons n ns)
    have "ceil_div (n + sum_list ns) b \<le> ceil_div n b + ceil_div (sum_list ns) b"
      by (rule ceil_div_add(1)[OF assms])
    then show ?case using Cons by simp
  qed
  show "ns \<noteq> [] \<Longrightarrow> sum_list (map (\<lambda>n. ceil_div n b) ns) + 1 \<le> ceil_div (sum_list ns) b + length ns"
  proof (induction ns)
    case Nil
    then show ?case by simp
  next
    case (Cons n ns)
    show ?case
    proof (cases "ns = []")
      case True
      then show ?thesis by simp
    next
      case False
      have "ceil_div n b + ceil_div (sum_list ns) b \<le> ceil_div (n + sum_list ns) b + 1"
        by (rule ceil_div_add(2)[OF assms])
      then show ?thesis using Cons.IH[OF False] by simp
    qed
  qed
qed

lemma pending_replicate_None [simp]: "pending (replicate n None) = {#}"
  by (induction n) (simp_all add: pending_def)

lemma load_inv_init: "load_inv EK B lines (load_init lines b)"
proof -
  have "writer_inv B (load_init lines b) w" if "w < writersCount" for w
    using that by (simp add: writer_inv_def load_init_def winv_def)
  then show ?thesis
    by (simp add: load_inv_def list_all_iff flow_def ids_ok_def) (simp add: load_init_def)
qed

lemma load_inv_step:
  assumes "load_inv EK B lines st"
  shows "load_inv EK B lines (step be EK B st a)"
proof -
  have l: "length (parsers st) = parsersCount" "length (writers st) = writersCount"
    using assms by (simp_all add: load_inv_def)
  have "writer_inv B (step be EK B st a) w" if "w < writersCount" for w
    using step_writer_inv[OF l(2) that] assms that by (simp add: load_inv_def list_all_iff)
  moreover have "totalRecords (step be EK B st a) = int (length (accepted (step be EK B st a)))"
    using step_totalRecords[of be EK B st a] assms by (simp add: load_inv_def)
  ultimately show ?thesis
    using assms l step_flow[OF l(1), of EK be B a] step_ids_ok[of st be EK B a]
    by (simp add: load_inv_def list_all_iff)
qed

lemma load_inv_foldl:
  "load_inv EK B lines st \<Longrightarrow> load_inv EK B lines (foldl (step be EK B) st sched)"
  by (induction sched arbitrary: st) (simp_all add: load_inv_step)

lemma list_all_by_writer:
  assumes "list_all (\<lambda>x. fst x < n) xs"
    and "\<And>w. w < n \<Longrightarrow> list_all P (map g (filter (\<lambda>x. fst x = w) xs))"
  shows "list_all P (map g xs)"
proof -
  have "P (g x)" if "x \<in> set xs" for x
  proof -
    have "fst x < n" using assms(1) that by (simp add: list_all_iff)
    from assms(2)[OF this] that show ?thesis by (cases x) (auto simp add: list_all_iff)
  qed
  then show ?thesis by (simp add: list_all_iff)
qed

lemma length_by_writer:
  assumes "list_all (\<lambda>x. fst x < n) xs"
  shows "length xs = sum_list (map (\<lambda>w. length (filter (\<lambda>x. fst x = w) xs)) [0..<n])"
proof -
  have "sum_list (map (\<lambda>x. 1::nat) xs) = length xs" for xs :: "(nat \<times> 'a) list"
    by (induction xs) simp_all
  then show ?thesis
    using partition_by_writer[OF assms, of "\<lambda>_. 1::nat"] by simp
qed

lemma mset_by_writer:
  assumes "list_all (\<lambda>x. fst x < n) xs"
  shows "mset (concat (map (\<lambda>x. g (snd x)) xs))
         = sum_list (map (\<lambda>w. mset (concat (map (\<lambda>x. g (snd x)) (filter (\<lambda>x. fst x = w) xs)))) [0..<n])"
proof -
  have "sum_list (map (\<lambda>x. mset (g (snd x))) xs) = mset (concat (map (\<lambda>x. g (snd x)) xs))"
    for xs :: "(nat \<times> 'a) list"
    by (induction xs) simp_all
  then show ?thesis
    using partition_by_writer[OF assms, of "\<lambda>x. mset (g x)"] by simp
qed

lemma finished_writer:
  assumes "load_inv EK B lines st" "load_finished st" "w < writersCount"
  shows "winv B None (puts_of w (puts st)) (accepted_by w (accepted st))"
proof -
  have "writers st ! w = None"
    using assms by (simp add: load_finished_def load_inv_def list_all_length)
  moreover have "writer_inv B st w" using assms by (simp add: load_inv_def list_all_iff)
  ultimately show ?thesis by (simp add: writer_inv_def)
qed

lemma finished_accepted:
  assumes "load_inv EK B lines st" "load_finished st"
  shows "mset (map snd (accepted st)) = mset (valid_records EK lines)"
proof -
  have "input st = []" "pending (parsers st) = {#}"
    using assms(2) by (simp_all add: load_finished_def parsers_done_def pending_all_None)
  then show ?thesis using assms(1) by (simp add: load_inv_def flow_def valid_records_def)
qed

lemma finished_puts:
  assumes "load_inv EK B lines st" "load_finished st"
  shows "mset (concat (batches (puts st))) = mset (map snd (accepted st))"
proof -
  have ids: "list_all (\<lambda>p. fst p < writersCount) (puts st)" "list_all (\<lambda>p. fst p < writersCount) (accepted st)"
    using assms(1) by (simp_all add: load_inv_def ids_ok_def)
  have eq: "concat (puts_of w (puts st)) = accepted_by w (accepted st)" if "w < writersCount" for w
    using finished_writer[OF assms that] by (simp add: winv_def)
  have "mset (concat (batches (puts st)))
        = sum_list (map (\<lambda>w. mset (concat (puts_of w (puts st)))) [0..<writersCount])"
    using mset_by_writer[OF ids(1), of fst] by (simp add: batches_def puts_of_def)
  also have "\<dots> = sum_list (map (\<lambda>w. mset (accepted_by w (accepted st))) [0..<writersCount])"
    by (intro arg_cong[where f = sum_list] map_cong) (simp_all add: eq)
  also have "\<dots> = mset (map snd (accepted st))"
    using mset_by_writer[OF ids(2), of "\<lambda>r. [r]"] by (simp add: accepted_by_def)
  finally show ?thesis .
qed

lemma finished_count:
  assumes "load_inv EK B lines st" "load_finished st" "0 < B"
  shows "length (puts st)
         = sum_list (map (\<lambda>w. ceil_div (length (accepted_by w (accepted st))) (nat B)) [0..<writersCount])"
proof -
  have ids: "list_all (\<lambda>p. fst p < writersCount) (puts st)"
    using assms(1) by (simp add: load_inv_def ids_ok_def)
  have eq: "length (puts_of w (puts st)) = ceil_div (length (accepted_by w (accepted st))) (nat B)"
    if "w < writersCount" for w
    using finished_writer[OF assms(1,2) that] assms(3) by (simp add: winv_def)
  have "length (puts st) = sum_list (map (\<lambda>w. length (puts_of w (puts st))) [0..<writersCount])"
    using length_by_writer[OF ids] by (simp add: puts_of_def)
  also have "\<dots> = sum_list (map (\<lambda>w. ceil_div (length (accepted_by w (accepted st))) (nat B)) [0..<writersCount])"
    by (intro arg_cong[where f = sum_list] map_cong) (simp_all add: eq)
  finally show ?thesis .
qed

lemma finished_shares:
  assumes "load_inv EK B lines st" "load_finished st"
  shows "sum_list (map (\<lambda>w. length (accepted_by w (accepted st))) [0..<writersCount])
         = length (valid_records EK lines)"
proof -
  have ids: "list_all (\<lambda>p. fst p < writersCount) (accepted st)"
    using assms(1) by (simp add: load_inv_def ids_ok_def)
  have "sum_list (map (\<lambda>w. length (accepted_by w (accepted st))) [0..<writersCount]) = length (accepted st)"
    using length_by_writer[OF ids] by (simp add: accepted_by_def)
  also have "\<dots> = size (mset (map snd (accepted st)))" by simp
  also have "\<dots> = length (valid_records EK lines)"
    unfolding finished_accepted[OF assms] by simp
  finally show ?thesis .
qed

lemma finished_batches:
  assumes "load_inv EK B lines st" "load_finished st"
  shows "list_all (\<lambda>batch. batch \<noteq> []) (batches (puts st))"
    and "0 < B \<Longrightarrow> list_all (\<lambda>batch. int (length batch) \<le> B) (batches (puts st))"
proof -
  have ids: "list_all (\<lambda>p. fst p < writersCount) (puts st)"
    using assms(1) by (simp add: load_inv_def ids_ok_def)
  show "list_all (\<lambda>batch. batch \<noteq> []) (batches (puts st))"
    unfolding batches_def
  proof (rule list_all_by_writer[OF ids])
    fix w assume "w < writersCount"
    from finished_writer[OF assms this]
    show "list_all (\<lambda>batch. batch \<noteq> []) (map (\<lambda>p. fst (snd p)) (filter (\<lambda>x. fst x = w) (puts st)))"
      by (simp add: winv_def puts_of_def)
  qed
  show "list_all (\<lambda>batch. int (length batch) \<le> B) (batches (puts st))" if "0 < B"
    unfolding batches_def
  proof (rule list_all_by_writer[OF ids])
    fix w assume "w < writersCount"
    from finished_writer[OF assms this] that
    show "list_all (\<lambda>batch. int (length batch) \<le> B) (map (\<lambda>p. fst (snd p)) (filter (\<lambda>x. fst x = w) (puts st)))"
      by (simp add: winv_def puts_of_def)
  qed
qed

lemma skeletonD:
  assumes "skeleton st1 = skeleton st2"
  shows "input st1 = input st2" "parsers st1 = parsers st2" "writers st1 = writers st2"
    "totalRecords st1 = totalRecords st2" "trace st1 = trace st2" "accepted st1 = accepted st2"
  using assms by (simp_all add: skeleton_def)

lemma step_skeleton:
  assumes "skeleton st1 = skeleton st2"
  shows "skeleton (step be1 EK B st1 a) = skeleton (step be2 EK B st2 a)"
proof -
  note e = skeletonD[OF assms]
  have pd: "parsers_done st1 = parsers_done st2" using e by (simp add: parsers_done_def)
  have t: "map (\<lambda>p. (fst p, fst (snd p))) (puts st1) = map (\<lambda>p. (fst p, fst (snd p))) (puts st2)"
    using e(5) by (simp add: trace_def)
  show ?thesis
  proof (cases a)
    case (Parse i)
    show ?thesis unfolding Parse using e(1-4,6) t
      by (simp add: step.simps skeleton_def trace_def split: list.splits prod.splits)
  next
    case (Hand i w)
    show ?thesis unfolding Hand using e(1-4,6) t
      by (simp add: step.simps skeleton_def trace_def split: option.splits)
  next
    case (Drain w)
    show ?thesis unfolding Drain using e(1-4,6) t pd
      by (simp add: step.simps skeleton_def trace_def split: option.splits)
  qed
qed

lemma foldl_skeleton:
  "skeleton st1 = skeleton st2 \<Longrightarrow>
   skeleton (foldl (step be1 EK B) st1 sched) = skeleton (foldl (step be2 EK B) st2 sched)"
proof (induction sched arbitrary: st1 st2)
  case Nil
  then show ?case by simp
next
  case (Cons a sched)
  show ?case using Cons.IH[OF step_skeleton[OF Cons.prems]] by simp
qed

lemma init_skeleton: "skeleton (load_init lines b1) = skeleton (load_init lines b2)"
  by (simp add: skeleton_def load_init_def trace_def)

lemma finished_skeleton:
  "skeleton st1 = skeleton st2 \<Longrightarrow> load_finished st1 = load_finished st2"
  by (simp add: skeleton_def load_finished_def parsers_done_def)

lemma map_filter_append: "List.map_filter f (xs @ ys) = List.map_filter f xs @ List.map_filter f ys"
  by (simp add: List.map_filter_def)

lemma put_batch_logged:
  "logged_put_errors (logs st) = put_errors (puts st) \<Longrightarrow>
   logged_put_errors (logs (put_batch be w recs st)) = put_errors (puts (put_batch be w recs st))"
  by (cases "Put be recs (backend st)")
     (simp add: put_batch_def logged_put_errors_def put_errors_def map_filter_append List.map_filter_simps
       split: option.splits)

lemma logged_append_other:
  "(\<And>e. m \<noteq> LogPutFailed e) \<Longrightarrow> logged_put_errors (lg @ [m]) = logged_put_errors lg"
  by (cases m) (auto simp add: logged_put_errors_def map_filter_append List.map_filter_simps)

lemma parse_line_logs:
  "parse_line EK data = (rec, msgs) \<Longrightarrow> logged_put_errors msgs = []"
proof -
  have "logged_put_errors (snd (snd (foldl callback acc evs))) = []"
    if "logged_put_errors (snd (snd acc)) = []" for acc evs
    using that
  proof (induction evs arbitrary: acc)
    case Nil
    then show ?case by simp
  next
    case (Cons ev evs)
    obtain key val msgs where acc: "acc = (key, val, msgs)" by (cases acc)
    obtain idx v e where ev: "ev = (idx, v, e)" by (cases ev)
    have "logged_put_errors (snd (snd (callback acc ev))) = []"
      using Cons.prems unfolding acc ev
      by (cases e) (simp_all add: callback_def logged_append_other)
    from Cons.IH[OF this] show ?case by simp
  qed
  from this[of "([], [], [])" "EK data"]
  show "parse_line EK data = (rec, msgs) \<Longrightarrow> logged_put_errors msgs = []"
    by (auto simp: parse_line_def logged_put_errors_def List.map_filter_simps split: prod.splits)
qed

lemma step_logged:
  assumes "logged_put_errors (logs st) = put_errors (puts st)"
  shows "logged_put_errors (logs (step be EK B st a)) = put_errors (puts (step be EK B st a))"
proof (cases rule: step_cases[where be=be and EK=EK and B=B and st=st and a=a])
  case skip
  then show ?thesis using assms by simp
next
  case (parse i data rest rec msgs)
  show ?thesis unfolding parse(6) using assms parse_line_logs[OF parse(5)]
    by (simp add: logged_put_errors_def map_filter_append)
next
  case (recv i w r buf)
  let ?st = "st\<lparr>parsers := (parsers st)[i := None], accepted := accepted st @ [(w, r)]\<rparr>"
  have a: "logged_put_errors (logs ?st) = put_errors (puts ?st)" using assms by simp
  show ?thesis unfolding recv(6)
    using a put_batch_logged[OF a, of be w "buf @ [r]"]
    by (simp add: writer_recv_def Let_def logged_append_other)
next
  case (drain w buf)
  show ?thesis unfolding drain(5)
    using assms put_batch_logged[OF assms, of be w buf]
    by (simp add: writer_drain_def Let_def)
qed

lemma foldl_logged:
  "logged_put_errors (logs st) = put_errors (puts st) \<Longrightarrow>
   logged_put_errors (logs (foldl (step be EK B) st sched))
   = put_errors (puts (foldl (step be EK B) st sched))"
  by (induction sched arbitrary: st) (simp_all add: step_logged)

lemma list_all_update: "list_all P xs \<Longrightarrow> P x \<Longrightarrow> list_all P (xs[i := x])"
proof (induction xs arbitrary: i)
  case Nil
  then show ?case by simp
next
  case (Cons y ys)
  then show ?case by (cases i) simp_all
qed

lemma idle_pair:
  assumes "idle st" "input st = data # rest"
  shows "idle (step be EK B (step be EK B st (Parse 0)) (Hand 0 0))"
    and "input (step be EK B (step be EK B st (Parse 0)) (Hand 0 0)) = rest"
proof -
  obtain rec msgs where pl: "parse_line EK data = (rec, msgs)" by (cases "parse_line EK data")
  have p0: "0 < parsersCount" "0 < writersCount" by (simp_all add: parsersCount_def writersCount_def)
  have i: "list_all (\<lambda>p. p = None) (parsers st)" "length (parsers st) = parsersCount"
    "length (writers st) = writersCount" "list_all (\<lambda>w. w \<noteq> None) (writers st)"
    using assms(1) by (simp_all add: idle_def)
  have n0: "parsers st ! 0 = None" using i(1,2) p0 by (simp add: list_all_length)
  define st1 where "st1 = st\<lparr>input := rest, parsers := (parsers st)[0 := rec], logs := logs st @ msgs\<rparr>"
  have s1: "step be EK B st (Parse 0) = st1"
    using p0 n0 assms(2) pl by (simp add: step.simps st1_def)
  have r0: "parsers st1 ! 0 = rec" using i(2) p0 by (simp add: st1_def)
  have clear: "list_all (\<lambda>p. p = None) ((parsers st1)[0 := None])"
    using i(1) by (simp add: st1_def list_all_update)
  have res: "idle (step be EK B st1 (Hand 0 0)) \<and> input (step be EK B st1 (Hand 0 0)) = rest"
  proof (cases rec)
    case None
    then have "step be EK B st1 (Hand 0 0) = st1" using r0 by (simp add: step.simps)
    moreover have "parsers st1 = parsers st"
      using None n0 list_update_id[of "parsers st" 0] by (simp add: st1_def)
    ultimately show ?thesis using i by (simp add: idle_def st1_def)
  next
    case (Some r)
    obtain buf where buf: "writers st1 ! 0 = Some buf"
      using i(3,4) p0 by (cases "writers st ! 0") (auto simp: st1_def list_all_length)
    have "step be EK B st1 (Hand 0 0) = writer_recv be B 0 buf r (st1\<lparr>parsers := (parsers st1)[0 := None]\<rparr>)"
      using p0 r0 Some buf by (simp add: step.simps)
    moreover have "list_all (\<lambda>w. w \<noteq> None) ((writers st)[0 := Some x])" for x
      using list_all_update[OF i(4), of "Some x" 0] by simp
    ultimately show ?thesis using clear i(2,3) by (simp add: idle_def) (simp add: st1_def)
  qed
  show "idle (step be EK B (step be EK B st (Parse 0)) (Hand 0 0))"
    and "input (step be EK B (step be EK B st (Parse 0)) (Hand 0 0)) = rest"
    using res unfolding s1 by blast+
qed

lemma idle_lines:
  "idle st \<Longrightarrow> input st = lines \<Longrightarrow>
   idle (foldl (step be EK B) st (concat (map (\<lambda>_. [Parse 0, Hand 0 0]) lines))) \<and>
   input (foldl (step be EK B) st (concat (map (\<lambda>_. [Parse 0, Hand 0 0]) lines))) = []"
proof (induction lines arbitrary: st)
  case Nil
  then show ?case by simp
next
  case (Cons data rest)
  from Cons.IH[OF idle_pair[OF Cons.prems(1,2), of be EK B]] show ?case by simp
qed

lemma step_Drain:
  assumes "w < writersCount" "parsers_done st"
  shows "writers (step be EK B st (Drain w)) = (writers st)[w := None]"
    and "parsers_done (step be EK B st (Drain w))"
proof -
  show "writers (step be EK B st (Drain w)) = (writers st)[w := None]"
    using assms list_update_id[of "writers st" w]
    by (cases "writers st ! w") (simp_all add: step.simps)
  show "parsers_done (step be EK B st (Drain w))"
    using assms by (cases "writers st ! w") (simp_all add: step.simps parsers_done_def)
qed

lemma drains:
  assumes "parsers_done st" "length (writers st) = writersCount"
  shows "k \<le> writersCount \<Longrightarrow>
    parsers_done (foldl (step be EK B) st (map Drain [0..<k])) \<and>
    length (writers (foldl (step be EK B) st (map Drain [0..<k]))) = writersCount \<and>
    (\<forall>w<k. writers (foldl (step be EK B) st (map Drain [0..<k])) ! w = None)"
proof (induction k)
  case 0
  then show ?case using assms by simp
next
  case (Suc k)
  let ?st = "foldl (step be EK B) st (map Drain [0..<k])"
  have ih: "parsers_done ?st" "length (writers ?st) = writersCount" "\<forall>w<k. writers ?st ! w = None"
    using Suc by simp_all
  have k: "k < writersCount" using Suc.prems by simp
  have f: "foldl (step be EK B) st (map Drain [0..<Suc k]) = step be EK B ?st (Drain k)"
    by simp
  show ?case unfolding f
    using step_Drain[OF k ih(1), of be EK B] ih k
    by (auto simp: nth_list_update less_Suc_eq)
qed

lemma seq_schedule_finishes:
  "load_finished (foldl (step be EK B) (load_init lines b) (seq_schedule lines))"
proof -
  let ?st = "foldl (step be EK B) (load_init lines b) (concat (map (\<lambda>_. [Parse 0, Hand 0 0]) lines))"
  have "idle (load_init lines b)" by (simp add: idle_def load_init_def list_all_iff)
  moreover have "input (load_init lines b) = lines" by (simp add: load_init_def)
  ultimately have i: "idle ?st" "input ?st = []" using idle_lines by blast+
  then have pd: "parsers_done ?st" and len: "length (writers ?st) = writersCount"
    by (simp_all add: parsers_done_def idle_def)
  from drains[OF pd len, of writersCount be EK B]
  show ?thesis
    by (simp add: seq_schedule_def load_finished_def list_all_length)
qed

lemma loadFile_Returned:
  assumes "loadFile be EK (GzipStream lines e) B sched b = Some (Returned r st)"
  shows "\<not> makeslice_panics B" "r = e"
    "load_finished (foldl (step be EK B) (load_init lines b) sched)"
    "load_inv EK B lines (foldl (step be EK B) (load_init lines b) sched)"
    "puts st = puts (foldl (step be EK B) (load_init lines b) sched)"
    "accepted st = accepted (foldl (step be EK B) (load_init lines b) sched)"
    "backend st = backend (foldl (step be EK B) (load_init lines b) sched)"
proof -
  let ?st = "foldl (step be EK B) (load_init lines b) sched"
  show B: "\<not> makeslice_panics B" using assms by (auto simp: loadFile_def split: if_splits)
  have fin: "load_finished ?st" and r: "r = e"
    and st: "st = ?st\<lparr>logs := logs ?st @ [LogLoaded (totalRecords ?st)]\<rparr>"
    using assms B by (auto simp: loadFile_def Let_def split: if_splits)
  show "r = e" "load_finished ?st" using fin r by simp_all
  show "load_inv EK B lines ?st" by (rule load_inv_foldl[OF load_inv_init])
  show "puts st = puts ?st" "accepted st = accepted ?st" "backend st = backend ?st"
    using st by simp_all
qed

lemma filter_count_one:
  "distinct (concat xss) \<Longrightarrow>
   length (filter (\<lambda>xs. r \<in> set xs) xss) = (if r \<in> set (concat xss) then 1 else 0)"
  by (induction xss) auto

lemma returned_obtain:
  assumes "(case out of Some (Returned None st) \<Rightarrow> True | _ \<Rightarrow> False)"
  obtains st where "out = Some (Returned None st)"
  using assms by (auto split: option.splits load_outcome.splits)

lemma makeslice_panics_iff: "makeslice_panics B = (B < 0 \<or> 7036874417766 < B)"
  by (auto simp: makeslice_panics_def maxAlloc_def Record_size_def)

lemma loadFile_panics:
  "makeslice_panics B \<Longrightarrow> loadFile be EK (GzipStream lines e) B sched b = Some (Panicked cap_out_of_range)"
  by (simp add: loadFile_def)

lemma seq_schedule_returns:
  "\<not> makeslice_panics B \<Longrightarrow>
   \<exists>st. loadFile be EK (GzipStream lines e) B (seq_schedule lines) b = Some (Returned e st)"
  using seq_schedule_finishes[of be EK B lines b] by (simp add: loadFile_def Let_def)

lemma step_recording:
  assumes "backend st = b0 @ batches (puts st)"
  shows "backend (step RecordingBackend EK B st a) = b0 @ batches (puts (step RecordingBackend EK B st a))"
proof (cases rule: step_cases[where be=RecordingBackend and EK=EK and B=B and st=st and a=a])
  case skip
  then show ?thesis using assms by simp
next
  case (parse i data rest rec msgs)
  then show ?thesis using assms by simp
next
  case (recv i w r buf)
  then show ?thesis using assms
    by (simp add: writer_recv_backend batches_def RecordingBackend_def)
next
  case (drain w buf)
  then show ?thesis using assms
    by (simp add: writer_drain_backend batches_def RecordingBackend_def)
qed

lemma foldl_recording:
  "backend st = b0 @ batches (puts st) \<Longrightarrow>
   backend (foldl (step RecordingBackend EK B) st sched)
     = b0 @ batches (puts (foldl (step RecordingBackend EK B) st sched))"
proof (induction sched arbitrary: st)
  case Nil
  then show ?case by simp
next
  case (Cons a sched)
  from Cons.IH[OF step_recording[OF Cons.prems]] show ?case by simp
qed

lemma recorded_puts:
  assumes "loadFile RecordingBackend EK (GzipStream lines e) B sched b0 = Some (Returned r st)"
  shows "backend st = b0 @ batches (puts st)"
proof -
  have "backend (load_init lines b0) = b0 @ batches (puts (load_init lines b0))"
    by (simp add: load_init_def batches_def)
  from foldl_recording[OF this, of EK B sched]
  show ?thesis using loadFile_Returned(5,7)[OF assms] by simp
qed

lemma running_writer:
  assumes "0 < B" "w < writersCount"
    and "writers (foldl (step be EK B) (load_init lines b) sched) ! w = Some buf"
  shows "int (length buf) < B"
    and "concat (puts_of w (puts (foldl (step be EK B) (load_init lines b) sched))) @ buf
         = accepted_by w (accepted (foldl (step be EK B) (load_init lines b) sched))"
    and "list_all (\<lambda>batch. int (length batch) = B)
           (puts_of w (puts (foldl (step be EK B) (load_init lines b) sched)))"
proof -
  let ?st = "foldl (step be EK B) (load_init lines b) sched"
  have "load_inv EK B lines ?st" by (rule load_inv_foldl[OF load_inv_init])
  then have "writer_inv B ?st w" using assms(2) by (simp add: load_inv_def list_all_iff)
  then have "winv B (Some buf) (puts_of w (puts ?st)) (accepted_by w (accepted ?st))"
    using assms(3) by (simp add: writer_inv_def)
  then show "int (length buf) < B"
    and "concat (puts_of w (puts ?st)) @ buf = accepted_by w (accepted ?st)"
    and "list_all (\<lambda>batch. int (length batch) = B) (puts_of w (puts ?st))"
    using assms(1) by (simp_all add: winv_def)
qed

lemma finished_full:
  assumes "load_inv EK B lines st" "load_finished st" "w < writersCount"
  shows "0 < B \<Longrightarrow> list_all (\<lambda>batch. int (length batch) = B) (butlast (puts_of w (puts st)))"
    and "0 < B \<Longrightarrow> list_all (\<lambda>batch. int (length batch) \<le> B) (puts_of w (puts st))"
    and "B = 0 \<Longrightarrow> length (puts_of w (puts st)) \<le> 1"
  using finished_writer[OF assms] by (simp_all add: winv_def)

text \<open>
  C4. In a run of \<^verbatim>\<open>loadFile\<close> that returns, whatever the schedule and the backend: the
  records of all \<^verbatim>\<open>Put\<close> calls are the valid records of the input, each as often as the
  input has it, and so are the records the writers received. The batches a writer puts, one
  after the other, are the records it received, in order. No batch is empty (a drain
  flushes only a buffer that holds something); with \<open>0 < B\<close> every batch of a writer but its
  last holds \<open>B\<close> records and the last at most \<open>B\<close>; with \<open>B = 0\<close> a writer puts at most once.
  When the valid records are distinct, each is in exactly one batch, once. At every moment
  of a run (after any schedule \<open>sched'\<close>) the buffer of a running writer holds fewer than \<open>B\<close>
  records, and its batches followed by its buffer are what it has received: a buffer that
  reaches \<open>B\<close> is put before the writer receives again. With the recording backend, what the
  backend holds in the end is the batches of the \<^verbatim>\<open>Put\<close> calls.
\<close>

theorem every_record_in_exactly_one_put:
  assumes "loadFile be EK (GzipStream lines e) B sched b = Some (Returned r st)"
  shows "mset (concat (batches (puts st))) = mset (valid_records EK lines) \<and>
         mset (map snd (accepted st)) = mset (valid_records EK lines) \<and>
         (\<forall>w < writersCount. concat (puts_of w (puts st)) = accepted_by w (accepted st)) \<and>
         list_all (\<lambda>batch. batch \<noteq> []) (batches (puts st)) \<and>
         (0 < B \<longrightarrow>
            (\<forall>w < writersCount.
               list_all (\<lambda>batch. int (length batch) = B) (butlast (puts_of w (puts st))) \<and>
               list_all (\<lambda>batch. int (length batch) \<le> B) (puts_of w (puts st)))) \<and>
         (B = 0 \<longrightarrow> (\<forall>w < writersCount. length (puts_of w (puts st)) \<le> 1)) \<and>
         (distinct (valid_records EK lines) \<longrightarrow>
            distinct (concat (batches (puts st))) \<and>
            (\<forall>rec \<in> set (valid_records EK lines).
               length (filter (\<lambda>batch. rec \<in> set batch) (batches (puts st))) = 1)) \<and>
         (0 < B \<and> w' < writersCount \<and>
          writers (foldl (step be EK B) (load_init lines b) sched') ! w' = Some buf \<longrightarrow>
            int (length buf) < B \<and>
            concat (puts_of w' (puts (foldl (step be EK B) (load_init lines b) sched'))) @ buf
              = accepted_by w' (accepted (foldl (step be EK B) (load_init lines b) sched'))) \<and>
         (loadFile RecordingBackend EK (GzipStream lines e) B sched [] = Some (Returned r' st') \<longrightarrow>
            backend st' = batches (puts st') \<and>
            mset (concat (backend st')) = mset (valid_records EK lines))"
proof -
  define fin where "fin = foldl (step be EK B) (load_init lines b) sched"
  note s = loadFile_Returned(3-6)[OF assms, folded fin_def]
  have acc: "mset (map snd (accepted st)) = mset (valid_records EK lines)"
    unfolding s(4) by (rule finished_accepted[OF s(2,1)])
  have m: "mset (concat (batches (puts st))) = mset (valid_records EK lines)"
    unfolding s(3) using finished_puts[OF s(2,1)] finished_accepted[OF s(2,1)] by simp
  have a: "\<forall>w < writersCount. concat (puts_of w (puts st)) = accepted_by w (accepted st)"
    unfolding s(3,4) using finished_writer[OF s(2,1)] by (simp add: winv_def)
  have ne: "list_all (\<lambda>batch. batch \<noteq> []) (batches (puts st))"
    unfolding s(3) by (rule finished_batches(1)[OF s(2,1)])
  have full: "0 < B \<longrightarrow>
            (\<forall>w < writersCount.
               list_all (\<lambda>batch. int (length batch) = B) (butlast (puts_of w (puts st))) \<and>
               list_all (\<lambda>batch. int (length batch) \<le> B) (puts_of w (puts st)))"
    unfolding s(3) using finished_full(1,2)[OF s(2,1)] by blast
  have zero: "B = 0 \<longrightarrow> (\<forall>w < writersCount. length (puts_of w (puts st)) \<le> 1)"
    unfolding s(3) using finished_full(3)[OF s(2,1)] by blast
  have one: "distinct (valid_records EK lines) \<longrightarrow>
            distinct (concat (batches (puts st))) \<and>
            (\<forall>rec \<in> set (valid_records EK lines).
               length (filter (\<lambda>batch. rec \<in> set batch) (batches (puts st))) = 1)"
  proof (intro impI conjI ballI)
    assume d: "distinct (valid_records EK lines)"
    show dc: "distinct (concat (batches (puts st)))"
      using d m by (metis mset_eq_imp_distinct_iff)
    fix rec assume "rec \<in> set (valid_records EK lines)"
    then have "rec \<in> set (concat (batches (puts st)))"
      using m by (metis mset_eq_setD)
    then show "length (filter (\<lambda>batch. rec \<in> set batch) (batches (puts st))) = 1"
      using filter_count_one[OF dc, of rec] by simp
  qed
  have run: "0 < B \<and> w' < writersCount \<and>
          writers (foldl (step be EK B) (load_init lines b) sched') ! w' = Some buf \<longrightarrow>
            int (length buf) < B \<and>
            concat (puts_of w' (puts (foldl (step be EK B) (load_init lines b) sched'))) @ buf
              = accepted_by w' (accepted (foldl (step be EK B) (load_init lines b) sched'))"
    using running_writer(1,2)[of B w' be EK lines b sched' buf] by blast
  have rec: "loadFile RecordingBackend EK (GzipStream lines e) B sched [] = Some (Returned r' st') \<longrightarrow>
            backend st' = batches (puts st') \<and>
            mset (concat (backend st')) = mset (valid_records EK lines)"
  proof (intro impI)
    assume rr: "loadFile RecordingBackend EK (GzipStream lines e) B sched [] = Some (Returned r' st')"
    define fin' where "fin' = foldl (step RecordingBackend EK B) (load_init lines []) sched"
    note s' = loadFile_Returned(3-5)[OF rr, folded fin'_def]
    have b: "backend st' = batches (puts st')" using recorded_puts[OF rr] by simp
    have "mset (concat (batches (puts st'))) = mset (valid_records EK lines)"
      unfolding s'(3) using finished_puts[OF s'(2,1)] finished_accepted[OF s'(2,1)] by simp
    then show "backend st' = batches (puts st') \<and>
            mset (concat (backend st')) = mset (valid_records EK lines)"
      using b by simp
  qed
  show ?thesis using m acc a ne full zero one run rec by (intro conjI)
qed

theorem every_record_in_exactly_one_put_witness:
  "distinct (valid_records example_EachKey [''a'', ''b'', ''c'']) \<and>
   0 < (2::int) \<and> 0 < writersCount \<and>
   writers (foldl (step FailingBackend example_EachKey 2) (load_init [''a'', ''b'', ''c''] ())
              [Parse 0, Hand 0 0]) ! 0 = Some [\<lparr>Key = ''a'', Value = ''1''\<rparr>] \<and>
   int (length [\<lparr>Key = ''a'', Value = ''1''\<rparr>]) < 2 \<and>
   (\<exists>st st'. loadFile FailingBackend example_EachKey (GzipStream [''a'', ''b'', ''c''] None) 2
            [Parse 0, Parse 1, Hand 0 0, Parse 0, Hand 1 1, Hand 0 0, Drain 0, Drain 1, Drain 2, Drain 3] ()
          = Some (Returned None st) \<and>
        loadFile RecordingBackend example_EachKey (GzipStream [''a'', ''b'', ''c''] None) 2
            [Parse 0, Parse 1, Hand 0 0, Parse 0, Hand 1 1, Hand 0 0, Drain 0, Drain 1, Drain 2, Drain 3] []
          = Some (Returned None st') \<and>
        mset (concat (batches (puts st))) = mset (valid_records example_EachKey [''a'', ''b'', ''c'']) \<and>
        list_all (\<lambda>batch. batch \<noteq> []) (batches (puts st)) \<and>
        distinct (concat (batches (puts st))) \<and>
        backend st' = batches (puts st') \<and>
        mset (concat (backend st')) = mset (valid_records example_EachKey [''a'', ''b'', ''c'']))"
proof -
  have "case loadFile FailingBackend example_EachKey (GzipStream [''a'', ''b'', ''c''] None) 2
            [Parse 0, Parse 1, Hand 0 0, Parse 0, Hand 1 1, Hand 0 0, Drain 0, Drain 1, Drain 2, Drain 3] ()
        of Some (Returned None st) \<Rightarrow> True | _ \<Rightarrow> False"
    by code_simp
  then obtain st where run: "loadFile FailingBackend example_EachKey (GzipStream [''a'', ''b'', ''c''] None) 2
            [Parse 0, Parse 1, Hand 0 0, Parse 0, Hand 1 1, Hand 0 0, Drain 0, Drain 1, Drain 2, Drain 3] ()
          = Some (Returned None st)"
    by (rule returned_obtain)
  have "case loadFile RecordingBackend example_EachKey (GzipStream [''a'', ''b'', ''c''] None) 2
            [Parse 0, Parse 1, Hand 0 0, Parse 0, Hand 1 1, Hand 0 0, Drain 0, Drain 1, Drain 2, Drain 3] []
        of Some (Returned None st) \<Rightarrow> True | _ \<Rightarrow> False"
    by code_simp
  then obtain st' where rec: "loadFile RecordingBackend example_EachKey (GzipStream [''a'', ''b'', ''c''] None) 2
            [Parse 0, Parse 1, Hand 0 0, Parse 0, Hand 1 1, Hand 0 0, Drain 0, Drain 1, Drain 2, Drain 3] []
          = Some (Returned None st')"
    by (rule returned_obtain)
  have d: "distinct (valid_records example_EachKey [''a'', ''b'', ''c''])" by code_simp
  have w: "writers (foldl (step FailingBackend example_EachKey 2) (load_init [''a'', ''b'', ''c''] ())
              [Parse 0, Hand 0 0]) ! 0 = Some [\<lparr>Key = ''a'', Value = ''1''\<rparr>]"
    by code_simp
  have p: "0 < (2::int)" "0 < writersCount" by (simp_all add: writersCount_def)
  note t = every_record_in_exactly_one_put[OF run, of 0 "[Parse 0, Hand 0 0]"
      "[\<lparr>Key = ''a'', Value = ''1''\<rparr>]" None st']
  have a: "mset (concat (batches (puts st))) = mset (valid_records example_EachKey [''a'', ''b'', ''c''])"
    and b: "list_all (\<lambda>batch. batch \<noteq> []) (batches (puts st))"
    using t by blast+
  have c: "distinct (concat (batches (puts st)))" using t d by blast
  have e: "int (length [\<lparr>Key = ''a'', Value = ''1''\<rparr>]) < 2" using t p w by blast
  have f: "backend st' = batches (puts st')"
    and g: "mset (concat (backend st')) = mset (valid_records example_EachKey [''a'', ''b'', ''c''])"
    using t rec by blast+
  show ?thesis using d p w e run rec a b c f g by blast
qed

text \<open>
  C2 (as amended). Take \<open>0 < B\<close>. \<^verbatim>\<open>make\<close> panics exactly when \<open>B\<close> exceeds 7036874417766, and
  then the load ends in that panic; otherwise there is a schedule under which the load
  returns. A run that returns over lines with \<open>N\<close> valid records puts \<open>N\<close> records in all. The
  number of \<^verbatim>\<open>Put\<close> calls is the sum, over the four writers, of the ceiling of the writer's
  share over \<open>B\<close>: it is at least the ceiling of \<open>N\<close> over \<open>B\<close> and exceeds it by at most
  three. The recording backend holds the batches of these calls.
\<close>

theorem put_calls_count:
  assumes "0 < B"
  shows "(makeslice_panics B \<longleftrightarrow> 7036874417766 < B) \<and>
         (\<not> makeslice_panics B \<longrightarrow>
            (\<exists>st. loadFile be EK (GzipStream lines e) B (seq_schedule lines) b = Some (Returned e st))) \<and>
         (makeslice_panics B \<longrightarrow>
            loadFile be EK (GzipStream lines e) B sched b = Some (Panicked cap_out_of_range)) \<and>
         (loadFile be EK (GzipStream lines e) B sched b = Some (Returned r st) \<longrightarrow>
            sum_list (map length (batches (puts st))) = length (valid_records EK lines) \<and>
            length (puts st)
              = sum_list (map (\<lambda>w. ceil_div (length (accepted_by w (accepted st))) (nat B))
                           [0 ..< writersCount]) \<and>
            sum_list (map (\<lambda>w. length (accepted_by w (accepted st))) [0 ..< writersCount])
              = length (valid_records EK lines) \<and>
            ceil_div (length (valid_records EK lines)) (nat B) \<le> length (puts st) \<and>
            length (puts st) \<le> ceil_div (length (valid_records EK lines)) (nat B) + (writersCount - 1)) \<and>
         (loadFile RecordingBackend EK (GzipStream lines e) B sched [] = Some (Returned r' st') \<longrightarrow>
            backend st' = batches (puts st'))"
proof -
  have lim: "makeslice_panics B \<longleftrightarrow> 7036874417766 < B"
    using assms by (simp add: makeslice_panics_iff)
  have ex: "\<not> makeslice_panics B \<longrightarrow>
            (\<exists>st. loadFile be EK (GzipStream lines e) B (seq_schedule lines) b = Some (Returned e st))"
    using seq_schedule_returns[of B be EK lines e b] by blast
  have pn: "makeslice_panics B \<longrightarrow>
            loadFile be EK (GzipStream lines e) B sched b = Some (Panicked cap_out_of_range)"
    using loadFile_panics[of B be EK lines e sched b] by blast
  have cnt: "sum_list (map length (batches (puts st))) = length (valid_records EK lines) \<and>
            length (puts st)
              = sum_list (map (\<lambda>w. ceil_div (length (accepted_by w (accepted st))) (nat B))
                           [0 ..< writersCount]) \<and>
            sum_list (map (\<lambda>w. length (accepted_by w (accepted st))) [0 ..< writersCount])
              = length (valid_records EK lines) \<and>
            ceil_div (length (valid_records EK lines)) (nat B) \<le> length (puts st) \<and>
            length (puts st) \<le> ceil_div (length (valid_records EK lines)) (nat B) + (writersCount - 1)"
    if run: "loadFile be EK (GzipStream lines e) B sched b = Some (Returned r st)"
  proof -
    define fin where "fin = foldl (step be EK B) (load_init lines b) sched"
    note s = loadFile_Returned(3-6)[OF run, folded fin_def]
    let ?ns = "map (\<lambda>w. length (accepted_by w (accepted st))) [0 ..< writersCount]"
    have b: "0 < nat B" using assms(1) by simp
    have tot: "sum_list (map length (batches (puts st))) = length (valid_records EK lines)"
    proof -
      have "sum_list (map length (batches (puts st))) = length (concat (batches (puts st)))"
        by (simp add: length_concat)
      also have "\<dots> = size (mset (concat (batches (puts st))))" by simp
      also have "\<dots> = size (mset (valid_records EK lines))"
        unfolding s(3) finished_puts[OF s(2,1)] finished_accepted[OF s(2,1)] ..
      finally show ?thesis by simp
    qed
    have cnt: "length (puts st) = sum_list (map (\<lambda>n. ceil_div n (nat B)) ?ns)"
      unfolding s(3,4) using finished_count[OF s(2,1) assms(1)] by (simp add: comp_def)
    have sh: "sum_list ?ns = length (valid_records EK lines)"
      unfolding s(4) by (rule finished_shares[OF s(2,1)])
    have ne: "?ns \<noteq> []" by (simp add: writersCount_def)
    have lo: "ceil_div (length (valid_records EK lines)) (nat B) \<le> length (puts st)"
      using sum_ceil_div_bounds(1)[OF b, of ?ns] unfolding sh cnt .
    have hi: "length (puts st) \<le> ceil_div (length (valid_records EK lines)) (nat B) + (writersCount - 1)"
      using sum_ceil_div_bounds(2)[OF b ne] unfolding sh cnt by (simp add: writersCount_def)
    show ?thesis using tot cnt sh lo hi by (simp add: comp_def)
  qed
  have rec: "loadFile RecordingBackend EK (GzipStream lines e) B sched [] = Some (Returned r' st') \<longrightarrow>
            backend st' = batches (puts st')"
    using recorded_puts[of EK lines e B sched "[]" r' st'] by simp
  show ?thesis using lim ex pn cnt rec by blast
qed

text \<open>
  C2 as stated fails when two writers share the records: two lines, \<open>B = 2\<close>, parsers 0
  and 1 take a line each and hand their records to writers 0 and 1. Each writer drains its
  one record, which makes two \<^verbatim>\<open>Put\<close> calls where the ceiling of \<open>N\<close> over \<open>B\<close> is one. And
  with \<open>B = 7036874417767\<close> there is no \<^verbatim>\<open>Put\<close> call at all.
\<close>

theorem put_calls_count_counterexample:
  "put_calls (loadFile DummyBackend example_EachKey (GzipStream [''a'', ''b''] None) 2
      [Parse 0, Parse 1, Hand 0 0, Hand 1 1, Drain 0, Drain 1, Drain 2, Drain 3] ())
     = [[\<lparr>Key = ''a'', Value = ''1''\<rparr>], [\<lparr>Key = ''b'', Value = ''1''\<rparr>]] \<and>
   length (valid_records example_EachKey [''a'', ''b'']) = 2 \<and>
   ceil_div 2 2 = 1 \<and>
   loadFile DummyBackend example_EachKey (GzipStream [''a'', ''b''] None) 7036874417767
      [Parse 0, Parse 1, Hand 0 0, Hand 1 1, Drain 0, Drain 1, Drain 2, Drain 3] ()
     = Some (Panicked cap_out_of_range)"
  by code_simp

theorem put_calls_count_witness:
  "0 < (2::int) \<and> \<not> makeslice_panics 2 \<and>
   0 < (7036874417767::int) \<and> makeslice_panics 7036874417767 \<and>
   loadFile DummyBackend example_EachKey (GzipStream [''a'', ''b'', ''c''] None) 7036874417767
     (seq_schedule [''a'', ''b'', ''c'']) () = Some (Panicked cap_out_of_range) \<and>
   (\<exists>st. loadFile DummyBackend example_EachKey (GzipStream [''a'', ''b'', ''c''] None) 2
            (seq_schedule [''a'', ''b'', ''c'']) () = Some (Returned None st)) \<and>
   (\<exists>st. loadFile DummyBackend example_EachKey (GzipStream [''a'', ''b'', ''c''] None) 2
            [Parse 0, Parse 1, Hand 0 0, Parse 0, Hand 1 1, Hand 0 0, Drain 0, Drain 1, Drain 2, Drain 3] ()
          = Some (Returned None st) \<and>
        sum_list (map length (batches (puts st))) = length (valid_records example_EachKey [''a'', ''b'', ''c'']) \<and>
        ceil_div (length (valid_records example_EachKey [''a'', ''b'', ''c''])) (nat 2) \<le> length (puts st) \<and>
        length (puts st) \<le> ceil_div (length (valid_records example_EachKey [''a'', ''b'', ''c''])) (nat 2) + (writersCount - 1))"
proof -
  have "case loadFile DummyBackend example_EachKey (GzipStream [''a'', ''b'', ''c''] None) 2
            [Parse 0, Parse 1, Hand 0 0, Parse 0, Hand 1 1, Hand 0 0, Drain 0, Drain 1, Drain 2, Drain 3] ()
        of Some (Returned None st) \<Rightarrow> True | _ \<Rightarrow> False"
    by code_simp
  then obtain st where run: "loadFile DummyBackend example_EachKey (GzipStream [''a'', ''b'', ''c''] None) 2
            [Parse 0, Parse 1, Hand 0 0, Parse 0, Hand 1 1, Hand 0 0, Drain 0, Drain 1, Drain 2, Drain 3] ()
          = Some (Returned None st)"
    by (rule returned_obtain)
  have pos: "0 < (2::int)" "0 < (7036874417767::int)" by simp_all
  have ok: "\<not> makeslice_panics 2" and big: "makeslice_panics 7036874417767"
    by (simp_all add: makeslice_panics_def maxAlloc_def Record_size_def)
  note small = put_calls_count[OF pos(1), of DummyBackend example_EachKey "[''a'', ''b'', ''c'']" None "()"
      "[Parse 0, Parse 1, Hand 0 0, Parse 0, Hand 1 1, Hand 0 0, Drain 0, Drain 1, Drain 2, Drain 3]" None st]
  note large = put_calls_count[OF pos(2), of DummyBackend example_EachKey "[''a'', ''b'', ''c'']" None "()"
      "seq_schedule [''a'', ''b'', ''c'']"]
  have a: "\<exists>st. loadFile DummyBackend example_EachKey (GzipStream [''a'', ''b'', ''c''] None) 2
            (seq_schedule [''a'', ''b'', ''c'']) () = Some (Returned None st)"
    using small ok by blast
  have b: "loadFile DummyBackend example_EachKey (GzipStream [''a'', ''b'', ''c''] None) 7036874417767
     (seq_schedule [''a'', ''b'', ''c'']) () = Some (Panicked cap_out_of_range)"
    using large big by blast
  have c: "sum_list (map length (batches (puts st))) = length (valid_records example_EachKey [''a'', ''b'', ''c'']) \<and>
        ceil_div (length (valid_records example_EachKey [''a'', ''b'', ''c''])) (nat 2) \<le> length (puts st) \<and>
        length (puts st) \<le> ceil_div (length (valid_records example_EachKey [''a'', ''b'', ''c''])) (nat 2) + (writersCount - 1)"
    using small run by blast
  show ?thesis using pos ok big a b c run by blast
qed

text \<open>
  C5 (as amended). Take a run with the backend that never fails. Under the same schedule a
  run with any backend, whatever its \<^verbatim>\<open>Put\<close> returns, also ends; it returns what
  \<^verbatim>\<open>scanner.Err()\<close> returns (\<^verbatim>\<open>nil\<close> when the scan succeeded), it makes the same \<^verbatim>\<open>Put\<close> calls
  with the same batches by the same writers (no batch is put again or handed to another
  writer), every valid record is in them, and the log has one line for each failed call.
\<close>

theorem put_errors_do_not_stop_the_load:
  assumes "loadFile DummyBackend EK (GzipStream lines e) B sched () = Some (Returned r0 st0)"
  shows "\<exists>st. loadFile be EK (GzipStream lines e) B sched b = Some (Returned e st) \<and>
           map (\<lambda>p. (fst p, fst (snd p))) (puts st) = map (\<lambda>p. (fst p, fst (snd p))) (puts st0) \<and>
           mset (concat (batches (puts st))) = mset (valid_records EK lines) \<and>
           logged_put_errors (logs st) = put_errors (puts st)"
proof -
  define st0' where "st0' = foldl (step DummyBackend EK B) (load_init lines ()) sched"
  note s0 = loadFile_Returned(1)[OF assms] st0'_def
    loadFile_Returned(3,5)[OF assms, folded st0'_def]
  define st' where "st' = foldl (step be EK B) (load_init lines b) sched"
  define st where "st = st'\<lparr>logs := logs st' @ [LogLoaded (totalRecords st')]\<rparr>"
  have sk: "skeleton st' = skeleton st0'"
    unfolding st'_def s0(2) by (rule foldl_skeleton[OF init_skeleton])
  have fin: "load_finished st'" using finished_skeleton[OF sk] s0(3) by simp
  have inv: "load_inv EK B lines st'" unfolding st'_def by (rule load_inv_foldl[OF load_inv_init])
  have run: "loadFile be EK (GzipStream lines e) B sched b = Some (Returned e st)"
    using s0(1) fin by (simp add: loadFile_def Let_def st_def st'_def)
  have tr: "map (\<lambda>p. (fst p, fst (snd p))) (puts st) = map (\<lambda>p. (fst p, fst (snd p))) (puts st0)"
    using skeletonD(5)[OF sk] by (simp add: trace_def st_def s0(4))
  have ms: "mset (concat (batches (puts st))) = mset (valid_records EK lines)"
    using finished_puts[OF inv fin] finished_accepted[OF inv fin] by (simp add: st_def)
  have "logged_put_errors (logs (load_init lines b)) = put_errors (puts (load_init lines b))"
    by (simp add: load_init_def logged_put_errors_def put_errors_def List.map_filter_simps)
  from foldl_logged[OF this, of be EK B sched]
  have lg: "logged_put_errors (logs st) = put_errors (puts st)"
    by (simp add: st_def st'_def logged_append_other)
  show ?thesis using run tr ms lg by blast
qed

text \<open>
  C5 as stated fails when the scan fails too: the one \<^verbatim>\<open>Put\<close> call of the run fails, and
  \<^verbatim>\<open>loadFile\<close> returns the error of the scanner, not \<^verbatim>\<open>nil\<close>.
\<close>

theorem put_errors_do_not_stop_the_load_counterexample:
  "load_result (loadFile FailingBackend example_EachKey
      (GzipStream [''a''] (Some (Error ''unexpected EOF''))) 1 [Parse 0, Hand 0 0, Drain 0, Drain 1, Drain 2, Drain 3] ())
     = Some (Some (Error ''unexpected EOF'')) \<and>
   put_calls (loadFile FailingBackend example_EachKey
      (GzipStream [''a''] (Some (Error ''unexpected EOF''))) 1 [Parse 0, Hand 0 0, Drain 0, Drain 1, Drain 2, Drain 3] ())
     = [[\<lparr>Key = ''a'', Value = ''1''\<rparr>]] \<and>
   put_results (loadFile FailingBackend example_EachKey
      (GzipStream [''a''] (Some (Error ''unexpected EOF''))) 1 [Parse 0, Hand 0 0, Drain 0, Drain 1, Drain 2, Drain 3] ())
     = [Some (Error ''disk full'')]"
  by code_simp

theorem put_errors_do_not_stop_the_load_witness:
  "\<exists>st0 st. loadFile DummyBackend example_EachKey (GzipStream [''a'', ''b'', ''c''] None) 2
            [Parse 0, Parse 1, Hand 0 0, Parse 0, Hand 1 1, Hand 0 0, Drain 0, Drain 1, Drain 2, Drain 3] ()
          = Some (Returned None st0) \<and>
        loadFile FailingBackend example_EachKey (GzipStream [''a'', ''b'', ''c''] None) 2
            [Parse 0, Parse 1, Hand 0 0, Parse 0, Hand 1 1, Hand 0 0, Drain 0, Drain 1, Drain 2, Drain 3] ()
          = Some (Returned None st) \<and>
        map (\<lambda>p. (fst p, fst (snd p))) (puts st) = map (\<lambda>p. (fst p, fst (snd p))) (puts st0) \<and>
        mset (concat (batches (puts st))) = mset (valid_records example_EachKey [''a'', ''b'', ''c'']) \<and>
        logged_put_errors (logs st) = put_errors (puts st)"
proof -
  have "case loadFile DummyBackend example_EachKey (GzipStream [''a'', ''b'', ''c''] None) 2
            [Parse 0, Parse 1, Hand 0 0, Parse 0, Hand 1 1, Hand 0 0, Drain 0, Drain 1, Drain 2, Drain 3] ()
        of Some (Returned None st) \<Rightarrow> True | _ \<Rightarrow> False"
    by code_simp
  then obtain st0 where run: "loadFile DummyBackend example_EachKey (GzipStream [''a'', ''b'', ''c''] None) 2
            [Parse 0, Parse 1, Hand 0 0, Parse 0, Hand 1 1, Hand 0 0, Drain 0, Drain 1, Drain 2, Drain 3] ()
          = Some (Returned None st0)"
    by (rule returned_obtain)
  from put_errors_do_not_stop_the_load[OF run, of FailingBackend "()"] run show ?thesis by blast
qed

subsection \<open>Extraction\<close>

lemma encoderune_nonempty: "encoderune r \<noteq> []"
  by (simp add: encoderune_def)

lemma reverse_nonempty: "s \<noteq> [] \<Longrightarrow> reverse s \<noteq> []"
proof -
  assume "s \<noteq> []"
  then obtain c t where s: "s = c # t" by (cases s) auto
  have "stringtoslicerune s \<noteq> []" unfolding s by simp
  then obtain r rs where r: "rev (stringtoslicerune s) = r # rs"
    by (cases "rev (stringtoslicerune s)") auto
  show ?thesis
    using encoderune_nonempty[of r]
    by (simp add: reverse_def Let_def reverse_loop_rev r slicerunetostring_def)
qed

lemma field_of_snoc:
  "field_of i (evs @ [(idx, val, e)]) = (if idx = i \<and> e = None then val else field_of i evs)"
  by (simp add: field_of_def Let_def)

lemma foldl_callback_fields:
  "fst (foldl callback ([], [], []) evs) = field_of 0 evs \<and>
   fst (snd (foldl callback ([], [], []) evs)) = field_of 1 evs"
proof (induction evs rule: rev_induct)
  case Nil
  then show ?case by (simp add: field_of_def)
next
  case (snoc ev evs)
  obtain key val msgs where acc: "foldl callback ([], [], []) evs = (key, val, msgs)"
    by (cases "foldl callback ([], [], []) evs")
  obtain idx v e where ev: "ev = (idx, v, e)" by (cases ev)
  have ih: "key = field_of 0 evs" "val = field_of 1 evs" using snoc by (simp_all add: acc)
  have st: "foldl callback ([], [], []) (evs @ [ev]) = callback (key, val, msgs) (idx, v, e)"
    by (simp add: acc ev)
  have "fst (callback (key, val, msgs) (idx, v, e)) = field_of 0 (evs @ [(idx, v, e)]) \<and>
        fst (snd (callback (key, val, msgs) (idx, v, e))) = field_of 1 (evs @ [(idx, v, e)])"
    unfolding field_of_snoc ih by (cases e) (simp_all add: callback_def)
  then show ?case using st by (simp only: ev)
qed

lemma parse_line_fields:
  "fst (parse_line EK data) =
     (if field_of 0 (EK data) \<noteq> [] \<and> field_of 1 (EK data) \<noteq> []
      then Some \<lparr>Key = reverse (field_of 0 (EK data)), Value = copyBytes (field_of 1 (EK data))\<rparr>
      else None)"
  using foldl_callback_fields[of "EK data"]
  by (cases "foldl callback ([], [], []) (EK data)") (auto simp: parse_line_def)

lemma parse_line_nonempty:
  assumes "fst (parse_line EK data) = Some rec"
  shows "Key rec \<noteq> [] \<and> Value rec \<noteq> []"
  using assms reverse_nonempty[of "field_of 0 (EK data)"]
  by (auto simp: parse_line_fields copyBytes_def split: if_splits)

lemma valid_records_nonempty:
  assumes "rec \<in> set (valid_records EK lines)"
  shows "Key rec \<noteq> [] \<and> Value rec \<noteq> []"
proof -
  obtain data where "fst (parse_line EK data) = Some rec"
    using assms by (auto simp: valid_records_def List.map_filter_def)
  then show ?thesis by (rule parse_line_nonempty)
qed

lemma step_carried:
  assumes put: "\<And>recs b. list_all P recs \<Longrightarrow> Q b \<Longrightarrow> Q (snd (Put be recs b))"
    and c: "carried P EK st" and q: "Q (backend st)"
  shows "carried P EK (step be EK B st a) \<and> Q (backend (step be EK B st a))"
proof (cases rule: step_cases[where be=be and EK=EK and B=B and st=st and a=a])
  case skip
  then show ?thesis using c q by simp
next
  case (parse i data rest rec msgs)
  have v: "list_all P (valid_records EK (data # rest))" using c parse(4) by (simp add: carried_def)
  have r: "case rec of None \<Rightarrow> True | Some r \<Rightarrow> P r" and rest: "list_all P (valid_records EK rest)"
    using v parse(5) by (auto simp: valid_records_Cons split: option.splits)
  have "list_all (\<lambda>p. case p of None \<Rightarrow> True | Some r \<Rightarrow> P r) ((parsers st)[i := rec])"
    using c r by (intro list_all_update) (simp_all add: carried_def)
  then show ?thesis unfolding parse(6) using c q rest by (simp add: carried_def)
next
  case (recv i w r buf)
  have len: "length (parsers st) = parsersCount" "length (writers st) = writersCount"
    using c by (simp_all add: carried_def)
  have pr: "P r"
    using c recv(2,4) len by (auto simp: carried_def list_all_length split: option.splits)
  have pb: "list_all P buf"
    using c recv(3,5) len by (auto simp: carried_def list_all_length split: option.splits)
  have ps: "list_all (\<lambda>p. case p of None \<Rightarrow> True | Some r \<Rightarrow> P r) ((parsers st)[i := None])"
    using c by (intro list_all_update) (simp_all add: carried_def)
  have ws: "list_all (\<lambda>w. case w of None \<Rightarrow> True | Some buf \<Rightarrow> list_all P buf)
              ((writers st)[w := Some (if int (length buf) + 1 = B then [] else buf @ [r])])"
    using c pr pb by (intro list_all_update) (simp_all add: carried_def)
  have qb: "Q (snd (Put be (buf @ [r]) (backend st)))"
    using pr pb q by (intro put) simp_all
  show ?thesis unfolding recv(6)
    using len ps ws qb q c by (simp add: carried_def writer_recv_backend)
next
  case (drain w buf)
  have len: "length (parsers st) = parsersCount" "length (writers st) = writersCount"
    using c by (simp_all add: carried_def)
  have pb: "list_all P buf"
    using c drain(2,4) len by (auto simp: carried_def list_all_length split: option.splits)
  have ws: "list_all (\<lambda>w. case w of None \<Rightarrow> True | Some buf \<Rightarrow> list_all P buf) ((writers st)[w := None])"
    using c by (intro list_all_update) (simp_all add: carried_def)
  have qb: "Q (snd (Put be buf (backend st)))"
    using pb q by (intro put) simp_all
  show ?thesis unfolding drain(5)
    using len ws qb q c by (simp add: carried_def writer_drain_backend)
qed

lemma foldl_carried:
  assumes put: "\<And>recs b. list_all P recs \<Longrightarrow> Q b \<Longrightarrow> Q (snd (Put be recs b))"
  shows "carried P EK st \<Longrightarrow> Q (backend st) \<Longrightarrow>
    carried P EK (foldl (step be EK B) st sched) \<and> Q (backend (foldl (step be EK B) st sched))"
proof (induction sched arbitrary: st)
  case Nil
  then show ?case by simp
next
  case (Cons a sched)
  from step_carried[of P Q be EK st B a, OF put Cons.prems] Cons.IH show ?case by simp
qed

lemma init_carried:
  "carried has_key_and_value EK (load_init lines b)"
proof -
  have "list_all has_key_and_value (valid_records EK lines)"
    using valid_records_nonempty[of _ EK lines] by (simp add: list_all_iff has_key_and_value_def)
  then show ?thesis by (simp add: carried_def load_init_def list_all_iff)
qed

lemma bucket_insert_ok:
  "list_all (\<lambda>kv. fst kv \<noteq> [] \<and> snd kv \<noteq> []) kvs \<Longrightarrow> k \<noteq> [] \<Longrightarrow> v \<noteq> [] \<Longrightarrow>
   list_all (\<lambda>kv. fst kv \<noteq> [] \<and> snd kv \<noteq> []) (bucket_insert k v kvs)"
  by (induction k v kvs rule: bucket_insert.induct) simp_all

lemma put_each_ok:
  "list_all has_key_and_value recs \<Longrightarrow> list_all (\<lambda>kv. fst kv \<noteq> [] \<and> snd kv \<noteq> []) kvs \<Longrightarrow>
   put_each recs kvs = Inr kvs' \<Longrightarrow> list_all (\<lambda>kv. fst kv \<noteq> [] \<and> snd kv \<noteq> []) kvs'"
proof (induction recs arbitrary: kvs)
  case Nil
  then show ?case by simp
next
  case (Cons r recs)
  from Cons.prems(3) obtain kvs1 where b: "bucket_Put (Key r) (Value r) kvs = Inr kvs1"
    and rest: "put_each recs kvs1 = Inr kvs'"
    by (auto split: sum.splits)
  have "kvs1 = bucket_insert (Key r) (Value r) kvs"
    using b by (auto simp: bucket_Put_def split: if_splits)
  then have "list_all (\<lambda>kv. fst kv \<noteq> [] \<and> snd kv \<noteq> []) kvs1"
    using Cons.prems(1,2) by (simp add: bucket_insert_ok has_key_and_value_def)
  then show ?case using Cons.IH[OF _ _ rest] Cons.prems(1) by simp
qed

lemma BBoltBackend_Put_ok:
  assumes "list_all has_key_and_value recs" "bucket_ok db"
  shows "bucket_ok (snd (BBoltBackend_Put recs db))"
proof (cases "opened db")
  case False
  then show ?thesis using assms(2) by (simp add: BBoltBackend_Put_def)
next
  case True
  define kvs0 where "kvs0 = (case bucket db of None \<Rightarrow> [] | Some kvs \<Rightarrow> kvs)"
  have ok: "list_all (\<lambda>kv. fst kv \<noteq> [] \<and> snd kv \<noteq> []) kvs0"
    using assms(2) by (simp add: kvs0_def bucket_ok_def split: option.splits)
  show ?thesis
  proof (cases "put_each recs kvs0")
    case (Inl e)
    then show ?thesis using True assms(2) by (simp add: BBoltBackend_Put_def kvs0_def)
  next
    case (Inr kvs')
    have "list_all (\<lambda>kv. fst kv \<noteq> [] \<and> snd kv \<noteq> []) kvs'"
      by (rule put_each_ok[OF assms(1) ok Inr])
    then show ?thesis using True Inr assms(2)
      by (cases "disk_fault db") (simp_all add: BBoltBackend_Put_def kvs0_def[symmetric] bucket_ok_def)
  qed
qed

lemma cursor_loop_ok:
  "list_all (\<lambda>kv. fst kv \<noteq> [] \<and> snd kv \<noteq> []) kvs \<Longrightarrow> list_all has_key_and_value recs \<Longrightarrow>
   list_all has_key_and_value (cursor_loop bprefix kvs recs)"
  by (induction bprefix kvs recs rule: cursor_loop.induct) (simp_all add: has_key_and_value_def)

lemma BBoltBackend_Search_ok:
  assumes "bucket_ok db" "BBoltBackend_Search bprefix db = Inr (found, serr)"
  shows "list_all has_key_and_value found"
proof (cases "opened db")
  case False
  then show ?thesis using assms(2) by (simp add: BBoltBackend_Search_def)
next
  case True
  then obtain kvs where kvs: "bucket db = Some kvs"
    and f: "found = cursor_loop bprefix (dropWhile (\<lambda>kv. fst kv < bprefix) kvs) []"
    using assms(2) by (auto simp: BBoltBackend_Search_def split: option.splits)
  have "list_all (\<lambda>kv. fst kv \<noteq> [] \<and> snd kv \<noteq> []) kvs"
    using assms(1) kvs by (simp add: bucket_ok_def)
  then have "list_all (\<lambda>kv. fst kv \<noteq> [] \<and> snd kv \<noteq> []) (dropWhile (\<lambda>kv. fst kv < bprefix) kvs)"
    by (auto simp: list_all_iff dest: set_dropWhileD)
  then show ?thesis unfolding f by (intro cursor_loop_ok) simp_all
qed

lemma loaded_bbolt_ok:
  assumes "loadFile BBoltBackend EK (GzipStream lines e) B sched db = Some (Returned r st)"
    and "bucket_ok db"
  shows "bucket_ok (backend st)"
proof -
  have put: "\<And>recs b. list_all has_key_and_value recs \<Longrightarrow> bucket_ok b
      \<Longrightarrow> bucket_ok (snd (Put BBoltBackend recs b))"
    by (simp add: BBoltBackend_def BBoltBackend_Put_ok)
  have "bucket_ok (backend (load_init lines db))" using assms(2) by (simp add: load_init_def)
  from foldl_carried[of has_key_and_value bucket_ok BBoltBackend EK "load_init lines db" B sched,
      OF put init_carried this]
  show ?thesis unfolding loadFile_Returned(7)[OF assms(1)] by blast
qed

lemma put_batches_nonempty:
  assumes "loadFile be EK (GzipStream lines e) B sched b = Some (Returned r st)"
  shows "list_all (list_all has_key_and_value) (batches (puts st))"
proof -
  define st' where "st' = foldl (step be EK B) (load_init lines b) sched"
  note s = loadFile_Returned(3-6)[OF assms, folded st'_def]
  have "mset (concat (batches (puts st))) = mset (valid_records EK lines)"
    unfolding s(3) finished_puts[OF s(2,1)] finished_accepted[OF s(2,1)] ..
  then have "set (concat (batches (puts st))) = set (valid_records EK lines)"
    by (rule mset_eq_setD)
  then show ?thesis
    using valid_records_nonempty[of _ EK lines]
    by (auto simp: list_all_iff has_key_and_value_def)
qed

text \<open>
  C3. A record made by a parser has a key and a value that are not empty; a line whose name
  or value is missing or empty makes no record. So every record of every \<^verbatim>\<open>Put\<close> call of a
  run has both, and after a load into a new bbolt database \<^verbatim>\<open>Search\<close> returns no record
  with an empty key or an empty value.
\<close>

theorem extraction_drops_incomplete_lines:
  "(fst (parse_line EK data) = Some rec \<longrightarrow> has_key_and_value rec) \<and>
   (field_of 0 (EK data) = [] \<or> field_of 1 (EK data) = [] \<longrightarrow> fst (parse_line EK data) = None) \<and>
   (loadFile be EK (GzipStream lines e) B sched b = Some (Returned r st) \<longrightarrow>
      list_all (list_all has_key_and_value) (batches (puts st))) \<and>
   (loadFile BBoltBackend EK (GzipStream lines e) B sched bbolt_new = Some (Returned r' st') \<and>
    BBoltBackend_Search bprefix (backend st') = Inr (found, serr) \<longrightarrow>
      list_all has_key_and_value found)"
proof -
  have a: "fst (parse_line EK data) = Some rec \<longrightarrow> has_key_and_value rec"
    using parse_line_nonempty[of EK data rec] by (simp add: has_key_and_value_def)
  have b: "field_of 0 (EK data) = [] \<or> field_of 1 (EK data) = [] \<longrightarrow> fst (parse_line EK data) = None"
    by (auto simp: parse_line_fields)
  have c: "loadFile be EK (GzipStream lines e) B sched b = Some (Returned r st) \<longrightarrow>
      list_all (list_all has_key_and_value) (batches (puts st))"
    by (intro impI) (erule put_batches_nonempty)
  have "bucket_ok bbolt_new" by (simp add: bucket_ok_def bbolt_new_def)
  then have d: "loadFile BBoltBackend EK (GzipStream lines e) B sched bbolt_new = Some (Returned r' st') \<and>
    BBoltBackend_Search bprefix (backend st') = Inr (found, serr) \<longrightarrow>
      list_all has_key_and_value found"
    using loaded_bbolt_ok[of EK lines e B sched bbolt_new r' st']
      BBoltBackend_Search_ok[of "backend st'" bprefix found serr] by simp
  show ?thesis using a b c d by (intro conjI)
qed

theorem extraction_drops_incomplete_lines_witness:
  "fst (parse_line example_EachKey ''moc.elpmaxe'') = Some \<lparr>Key = ''example.com'', Value = ''1''\<rparr> \<and>
   has_key_and_value \<lparr>Key = ''example.com'', Value = ''1''\<rparr> \<and>
   field_of 0 (example_EachKey []) = [] \<and>
   fst (parse_line example_EachKey []) = None \<and>
   (\<exists>st found. loadFile BBoltBackend example_EachKey (GzipStream [''a'', [], ''ab''] None) 2
            [Parse 0, Parse 1, Hand 0 0, Parse 0, Hand 1 1, Hand 0 0, Drain 0, Drain 1, Drain 2, Drain 3]
            bbolt_new = Some (Returned None st) \<and>
        BBoltBackend_Search ''a'' (backend st) = Inr (found, None) \<and>
        list_all has_key_and_value found)"
proof -
  have p: "fst (parse_line example_EachKey ''moc.elpmaxe'') = Some \<lparr>Key = ''example.com'', Value = ''1''\<rparr>"
    by code_simp
  have f: "field_of 0 (example_EachKey []) = []" by code_simp
  have "case loadFile BBoltBackend example_EachKey (GzipStream [''a'', [], ''ab''] None) 2
            [Parse 0, Parse 1, Hand 0 0, Parse 0, Hand 1 1, Hand 0 0, Drain 0, Drain 1, Drain 2, Drain 3]
            bbolt_new
        of Some (Returned None st) \<Rightarrow>
             (case BBoltBackend_Search ''a'' (backend st) of Inr (found, None) \<Rightarrow> True | _ \<Rightarrow> False)
         | _ \<Rightarrow> False"
    by code_simp
  then obtain st found where run: "loadFile BBoltBackend example_EachKey (GzipStream [''a'', [], ''ab''] None) 2
            [Parse 0, Parse 1, Hand 0 0, Parse 0, Hand 1 1, Hand 0 0, Drain 0, Drain 1, Drain 2, Drain 3]
            bbolt_new = Some (Returned None st)"
    and s: "BBoltBackend_Search ''a'' (backend st) = Inr (found, None)"
    by (auto split: option.splits load_outcome.splits sum.splits)
  note t = extraction_drops_incomplete_lines[of example_EachKey _ _ BBoltBackend "[''a'', [], ''ab'']" None 2
      "[Parse 0, Parse 1, Hand 0 0, Parse 0, Hand 1 1, Hand 0 0, Drain 0, Drain 1, Drain 2, Drain 3]"
      bbolt_new None st None st "''a''" found None]
  have a: "has_key_and_value \<lparr>Key = ''example.com'', Value = ''1''\<rparr>"
    using t[of "''moc.elpmaxe''" "\<lparr>Key = ''example.com'', Value = ''1''\<rparr>"] p by blast
  have b: "fst (parse_line example_EachKey []) = None"
    using t[of "[]"] f by blast
  have c: "list_all has_key_and_value found"
    using t run s by blast
  show ?thesis using p a f b c run s by blast
qed

subsection \<open>The query dispatcher\<close>

lemma print_line_Inr:
  "print_line M T j t r = Inr line \<Longrightarrow> line = output_line M T j t r"
  by (auto simp: print_line_def output_line_def Let_def split: if_splits prod.splits option.splits)

lemma print_line_ok:
  "j \<longrightarrow> (\<forall>l. snd (M l) = None) \<Longrightarrow> print_line M T j t r = Inr (output_line M T j t r)"
proof (cases j)
  case False
  then show ?thesis by (simp add: print_line_def output_line_def Let_def)
next
  case True
  assume "j \<longrightarrow> (\<forall>l. snd (M l) = None)"
  then have "snd (M (JSONLine t (reverse (Key r)) (Value r))) = None" using True by blast
  then show ?thesis using True
    by (cases "M (JSONLine t (reverse (Key r)) (Value r))")
       (simp add: print_line_def output_line_def Let_def)
qed

lemma print_lines_Inr:
  "print_lines M T j t recs out = Inr out' \<Longrightarrow> out' = out @ map (output_line M T j t) recs"
proof (induction recs arbitrary: out)
  case Nil
  then show ?case by simp
next
  case (Cons r recs)
  from Cons.prems obtain line where l: "print_line M T j t r = Inr line"
    and rest: "print_lines M T j t recs (out @ [line]) = Inr out'"
    by (auto split: sum.splits)
  show ?case using Cons.IH[OF rest] print_line_Inr[OF l] by simp
qed

lemma print_lines_ok:
  "j \<longrightarrow> (\<forall>l. snd (M l) = None) \<Longrightarrow>
   print_lines M T j t recs out = Inr (out @ map (output_line M T j t) recs)"
  by (induction recs arbitrary: out) (simp_all add: print_line_ok)

lemma group_lines_result_of:
  "\<not> isl (Search be (reverse t) b) \<Longrightarrow>
   group_lines M T j t (Search be (reverse t) b)
   = (case err (result_of be b t) of
        None \<Rightarrow> map (output_line M T j (query (result_of be b t))) (records (result_of be b t))
      | Some e \<Rightarrow> [])"
  by (cases "Search be (reverse t) b")
     (auto simp: group_lines_def result_of_def split: option.splits)

lemma result_log_result_of:
  "\<not> isl (Search be (reverse t) b) \<Longrightarrow>
   result_log t (Search be (reverse t) b)
   = (case err (result_of be b t) of
        None \<Rightarrow> []
      | Some e \<Rightarrow> [LogSearchFailed (query (result_of be b t)) e])"
  by (cases "Search be (reverse t) b")
     (auto simp: result_log_def result_of_def split: option.splits)

lemma print_results_Inr:
  "print_results M T j res (out, lg) = Inr (out', lg') \<Longrightarrow>
   out' = out @ concat (map (\<lambda>x. case err x of None \<Rightarrow> map (output_line M T j (query x)) (records x)
                                  | Some e \<Rightarrow> []) res) \<and>
   lg' = lg @ concat (map (\<lambda>x. case err x of None \<Rightarrow> [] | Some e \<Rightarrow> [LogSearchFailed (query x) e]) res)"
proof (induction res arbitrary: out lg)
  case Nil
  then show ?case by simp
next
  case (Cons x res)
  show ?case
  proof (cases "err x")
    case (Some e)
    then have "print_results M T j res (out, lg @ [LogSearchFailed (query x) e]) = Inr (out', lg')"
      using Cons.prems by simp
    from Cons.IH[OF this] show ?thesis using Some by simp
  next
    case None
    then obtain out1 where p: "print_lines M T j (query x) (records x) out = Inr out1"
      and rest: "print_results M T j res (out1, lg) = Inr (out', lg')"
      using Cons.prems by (auto split: sum.splits)
    from Cons.IH[OF rest] print_lines_Inr[OF p] show ?thesis using None by simp
  qed
qed

lemma print_results_ok:
  assumes "j \<longrightarrow> (\<forall>l. snd (M l) = None)"
  shows "\<exists>out' lg'. print_results M T j res (out, lg) = Inr (out', lg')"
proof (induction res arbitrary: out lg)
  case Nil
  then show ?case by simp
next
  case (Cons x res)
  show ?case
  proof (cases "err x")
    case (Some e)
    then show ?thesis using Cons.IH by simp
  next
    case None
    then show ?thesis using Cons.IH print_lines_ok[OF assms] by simp
  qed
qed

lemma print_lines_Inl:
  "print_lines M T j t recs out = Inl (e, out') \<Longrightarrow>
   prefix out' (out @ map (output_line M T j t) recs)"
proof (induction recs arbitrary: out)
  case Nil
  then show ?case by simp
next
  case (Cons r recs)
  show ?case
  proof (cases "print_line M T j t r")
    case (Inl e')
    then show ?thesis using Cons.prems by simp
  next
    case (Inr line)
    then have rest: "print_lines M T j t recs (out @ [line]) = Inl (e, out')"
      using Cons.prems by simp
    show ?thesis using Cons.IH[OF rest] print_line_Inr[OF Inr] by simp
  qed
qed

lemma print_results_Inl:
  "print_results M T j res (out, lg) = Inl (e, out', lg') \<Longrightarrow>
   prefix out' (out @ concat (map (\<lambda>x. case err x of None \<Rightarrow> map (output_line M T j (query x)) (records x)
                                  | Some e \<Rightarrow> []) res))"
proof (induction res arbitrary: out lg)
  case Nil
  then show ?case by simp
next
  case (Cons x res)
  show ?case
  proof (cases "err x")
    case (Some e')
    then show ?thesis using Cons.IH[of out "lg @ [LogSearchFailed (query x) e']"] Cons.prems by simp
  next
    case None
    show ?thesis
    proof (cases "print_lines M T j (query x) (records x) out")
      case (Inl bad)
      obtain e1 o1 where b: "bad = (e1, o1)" by (cases bad)
      have "out' = o1" using Cons.prems None Inl b by simp
      moreover have "prefix o1 (out @ map (output_line M T j (query x)) (records x))"
        using print_lines_Inl[OF Inl[unfolded b]] .
      ultimately have "prefix out' ((out @ map (output_line M T j (query x)) (records x))
          @ concat (map (\<lambda>x. case err x of None \<Rightarrow> map (output_line M T j (query x)) (records x)
                                  | Some e \<Rightarrow> []) res))"
        using prefix_prefix by blast
      then show ?thesis using None by simp
    next
      case (Inr o1)
      have o: "o1 = out @ map (output_line M T j (query x)) (records x)"
        using print_lines_Inr[OF Inr] .
      have "print_results M T j res (o1, lg) = Inl (e, out', lg')"
        using Cons.prems None Inr by simp
      from Cons.IH[OF this] show ?thesis using None o by simp
    qed
  qed
qed

lemma search_each_ok:
  "\<forall>t \<in> set qs. \<not> isl (Search be (reverse t) b) \<Longrightarrow>
   search_each be b qs (tr, res) = (tr @ map reverse qs, Inr (res @ map (result_of be b) qs))"
proof (induction qs arbitrary: tr res)
  case Nil
  then show ?case by simp
next
  case (Cons t qs)
  have "\<not> isl (Search be (reverse t) b)" using Cons.prems by simp
  then obtain recs e where s: "Search be (reverse t) b = Inr (recs, e)"
    by (cases "Search be (reverse t) b") auto
  have r: "result_of be b t = \<lparr>query = t, records = recs, err = e\<rparr>"
    by (simp add: result_of_def s)
  show ?case using Cons.IH[of "tr @ [reverse t]" "res @ [result_of be b t]"] Cons.prems
    by (simp add: s r)
qed

lemma search_each_calls:
  "prefix (fst (search_each be b qs (tr, res))) (tr @ map reverse qs)"
proof (induction qs arbitrary: tr res)
  case Nil
  then show ?case by simp
next
  case (Cons t qs)
  show ?case
  proof (cases "Search be (reverse t) b")
    case (Inl p)
    then show ?thesis by simp
  next
    case (Inr found)
    obtain recs e where f: "found = (recs, e)" by (cases found)
    show ?thesis using Cons.IH[of "tr @ [reverse t]"] by (simp add: Inr f)
  qed
qed

lemma search_each_Inr:
  "search_each be b qs (tr, res) = (tr', Inr res') \<Longrightarrow>
   tr' = tr @ map reverse qs \<and> res' = res @ map (result_of be b) qs \<and>
   (\<forall>t \<in> set qs. \<not> isl (Search be (reverse t) b))"
proof (induction qs arbitrary: tr res)
  case Nil
  then show ?case by simp
next
  case (Cons t qs)
  show ?case
  proof (cases "Search be (reverse t) b")
    case (Inl p)
    then show ?thesis using Cons.prems by simp
  next
    case (Inr found)
    obtain recs e where f: "found = (recs, e)" by (cases found)
    have r: "result_of be b t = \<lparr>query = t, records = recs, err = e\<rparr>"
      by (simp add: result_of_def Inr f)
    have "search_each be b qs (tr @ [reverse t], res @ [result_of be b t]) = (tr', Inr res')"
      using Cons.prems by (simp add: Inr f r)
    from Cons.IH[OF this] show ?thesis by (simp add: Inr)
  qed
qed

lemma groups_of_results:
  assumes "\<forall>t \<in> set ts. \<not> isl (Search be (reverse t) b)"
  shows "concat (map (\<lambda>x. case err x of None \<Rightarrow> map (output_line M T j (query x)) (records x)
                                  | Some e \<Rightarrow> []) (map (result_of be b) ts))
         = concat (map (\<lambda>t. group_lines M T j t (Search be (reverse t) b)) ts)"
    and "concat (map (\<lambda>x. case err x of None \<Rightarrow> [] | Some e \<Rightarrow> [LogSearchFailed (query x) e])
            (map (result_of be b) ts))
         = concat (map (\<lambda>t. result_log t (Search be (reverse t) b)) ts)"
  using assms
  by (induction ts) (simp_all add: group_lines_result_of result_log_result_of)

text \<open>
  C6. When the number of terms is not zero and the concurrency main works out is 1 (the
  flag is 1 with any number of terms, or there is one term and the flag is at least 1),
  the run ends under every schedule. \<^verbatim>\<open>Search\<close> is called with the reversed terms in the order
  of the query, up to the first call that panics. What is printed is a prefix of the
  groups of the terms, one group after the other in the order of the query, each made from
  its own term's search; when main returns (status 0) it is all of them, and the log has
  the failed terms in the same order. Main returns when no \<^verbatim>\<open>Search\<close> panics and, in JSON
  mode, \<^verbatim>\<open>Marshal\<close> does not fail.
\<close>

theorem single_worker_keeps_input_order:
  assumes "queryTerms q \<noteq> []"
    and "effective_concurrency queryConcurrency (length (queryTerms q)) = 1"
  shows "\<exists>r. run_queries be Marshal TrimSpace q queryConcurrency jsonFmt sched b = Some r \<and>
           prefix (search_calls r) (map reverse (queryTerms q)) \<and>
           prefix (out_lines r) (concat (map (\<lambda>t. group_lines Marshal TrimSpace jsonFmt t
                                                    (Search be (reverse t) b)) (queryTerms q))) \<and>
           (exit_status r = 0 \<longrightarrow>
              search_calls r = map reverse (queryTerms q) \<and>
              out_lines r = concat (map (\<lambda>t. group_lines Marshal TrimSpace jsonFmt t
                                              (Search be (reverse t) b)) (queryTerms q)) \<and>
              log_lines r = concat (map (\<lambda>t. result_log t (Search be (reverse t) b)) (queryTerms q))) \<and>
           ((\<forall>t \<in> set (queryTerms q). \<not> isl (Search be (reverse t) b)) \<and>
            (jsonFmt \<longrightarrow> (\<forall>l. snd (Marshal l) = None)) \<longrightarrow> exit_status r = 0)"
proof -
  define terms where "terms = queryTerms q"
  obtain tr outcome where s: "search_each be b terms ([], []) = (tr, outcome)"
    by (cases "search_each be b terms ([], [])")
  have pre: "prefix tr (map reverse terms)"
    using search_each_calls[of be b terms "[]" "[]"] s by simp
  have len: "0 < length terms" using assms(1) by (simp add: terms_def)
  show ?thesis
  proof (cases outcome)
    case (Inl p)
    have np: "\<not> (\<forall>t \<in> set terms. \<not> isl (Search be (reverse t) b))"
      using search_each_ok[of terms be b "[]" "[]"] s Inl by auto
    have "run_queries be Marshal TrimSpace q queryConcurrency jsonFmt sched b
            = Some \<lparr>exit_status = 2, out_lines = [], log_lines = [], search_calls = tr\<rparr>"
      using assms(2) len s Inl by (simp add: run_queries_def Let_def terms_def[symmetric])
    then show ?thesis using pre np by (simp add: terms_def)
  next
    case (Inr res)
    note e = search_each_Inr[OF s[unfolded Inr]]
    have tr: "tr = map reverse terms" and res: "res = map (result_of be b) terms"
      and np: "\<forall>t \<in> set terms. \<not> isl (Search be (reverse t) b)"
      using e by simp_all
    show ?thesis
    proof (cases "print_results Marshal TrimSpace jsonFmt res ([], [])")
      case (Inl fatal)
      obtain er out lg where f: "fatal = (er, out, lg)" by (cases fatal)
      have nm: "\<not> (jsonFmt \<longrightarrow> (\<forall>l. snd (Marshal l) = None))"
      proof
        assume "jsonFmt \<longrightarrow> (\<forall>l. snd (Marshal l) = None)"
        from print_results_ok[OF this, of TrimSpace res "[]" "[]"] show False using Inl by simp
      qed
      have po: "prefix out (concat (map (\<lambda>t. group_lines Marshal TrimSpace jsonFmt t
                                              (Search be (reverse t) b)) terms))"
        using print_results_Inl[OF Inl[unfolded f]] groups_of_results(1)[OF np, of Marshal TrimSpace jsonFmt]
        by (simp add: res)
      have "run_queries be Marshal TrimSpace q queryConcurrency jsonFmt sched b
            = Some \<lparr>exit_status = 1, out_lines = out, log_lines = lg @ [LogFatal er], search_calls = tr\<rparr>"
        using assms(2) len s Inr Inl f by (simp add: run_queries_def Let_def terms_def[symmetric])
      then show ?thesis using pre nm po by (simp add: terms_def)
    next
      case ok: (Inr printed)
      obtain out lg where f: "printed = (out, lg)" by (cases printed)
      note p = print_results_Inr[OF ok[unfolded f]]
      have out: "out = concat (map (\<lambda>t. group_lines Marshal TrimSpace jsonFmt t (Search be (reverse t) b)) terms)"
        and lg: "lg = concat (map (\<lambda>t. result_log t (Search be (reverse t) b)) terms)"
        using p groups_of_results(1)[OF np, of Marshal TrimSpace jsonFmt] groups_of_results(2)[OF np]
        by (simp_all add: res)
      have "run_queries be Marshal TrimSpace q queryConcurrency jsonFmt sched b
            = Some \<lparr>exit_status = 0, out_lines = out, log_lines = lg, search_calls = tr\<rparr>"
        using assms(2) len s Inr ok f by (simp add: run_queries_def Let_def terms_def[symmetric])
      then show ?thesis using pre tr out lg by (simp add: terms_def)
    qed
  qed
qed

theorem single_worker_keeps_input_order_witness:
  "queryTerms ''a,b,c'' = [''a'', ''b'', ''c''] \<and>
   effective_concurrency 1 (length (queryTerms ''a,b,c'')) = 1 \<and>
   (\<exists>r. run_queries FlakyBackend example_Marshal TrimSpace_ascii ''a,b,c'' 1 False [] () = Some r \<and>
        exit_status r = 0 \<and>
        search_calls r = [''a'', ''b'', ''c''] \<and>
        out_lines r = [''a: v'' @ [CHR 0x0A], ''c: v'' @ [CHR 0x0A]] \<and>
        log_lines r = [LogSearchFailed ''b'' (Error ''timeout'')])"
proof -
  have q: "queryTerms ''a,b,c'' = [''a'', ''b'', ''c'']" by code_simp
  have c: "effective_concurrency 1 (length (queryTerms ''a,b,c'')) = 1" by code_simp
  have ne: "queryTerms ''a,b,c'' \<noteq> []" by (simp add: q)
  have np: "\<forall>t \<in> set (queryTerms ''a,b,c''). \<not> isl (Search FlakyBackend (reverse t) ())"
    by (simp add: FlakyBackend_def)
  have m: "False \<longrightarrow> (\<forall>l. snd (example_Marshal l) = None)" by simp
  have tr: "map reverse [''a'', ''b'', ''c''] = [''a'', ''b'', ''c'']" by code_simp
  have out: "concat (map (\<lambda>t. group_lines example_Marshal TrimSpace_ascii False t
                        (Search FlakyBackend (reverse t) ())) [''a'', ''b'', ''c''])
             = [''a: v'' @ [CHR 0x0A], ''c: v'' @ [CHR 0x0A]]"
    by code_simp
  have lg: "concat (map (\<lambda>t. result_log t (Search FlakyBackend (reverse t) ())) [''a'', ''b'', ''c''])
             = [LogSearchFailed ''b'' (Error ''timeout'')]"
    by code_simp
  from single_worker_keeps_input_order[OF ne c, of FlakyBackend example_Marshal TrimSpace_ascii False "[]" "()"]
  obtain r where R: "run_queries FlakyBackend example_Marshal TrimSpace_ascii ''a,b,c'' 1 False [] () = Some r \<and>
           prefix (search_calls r) (map reverse (queryTerms ''a,b,c'')) \<and>
           prefix (out_lines r) (concat (map (\<lambda>t. group_lines example_Marshal TrimSpace_ascii False t
                                                    (Search FlakyBackend (reverse t) ())) (queryTerms ''a,b,c''))) \<and>
           (exit_status r = 0 \<longrightarrow>
              search_calls r = map reverse (queryTerms ''a,b,c'') \<and>
              out_lines r = concat (map (\<lambda>t. group_lines example_Marshal TrimSpace_ascii False t
                                              (Search FlakyBackend (reverse t) ())) (queryTerms ''a,b,c'')) \<and>
              log_lines r = concat (map (\<lambda>t. result_log t (Search FlakyBackend (reverse t) ())) (queryTerms ''a,b,c''))) \<and>
           ((\<forall>t \<in> set (queryTerms ''a,b,c''). \<not> isl (Search FlakyBackend (reverse t) ())) \<and>
            (False \<longrightarrow> (\<forall>l. snd (example_Marshal l) = None)) \<longrightarrow> exit_status r = 0)"
    ..
  note r = R[THEN conjunct1]
  note ord = R[THEN conjunct2, THEN conjunct2, THEN conjunct2, THEN conjunct1]
  note ex = R[THEN conjunct2, THEN conjunct2, THEN conjunct2, THEN conjunct2]
  have e0: "exit_status r = 0" using ex np by simp
  have "search_calls r = [''a'', ''b'', ''c'']"
    and "out_lines r = [''a: v'' @ [CHR 0x0A], ''c: v'' @ [CHR 0x0A]]"
    and "log_lines r = [LogSearchFailed ''b'' (Error ''timeout'')]"
    using ord e0 unfolding q tr out lg by simp_all
  then show ?thesis using q c r e0 by (intro conjI exI[of _ r]) simp_all
qed

text \<open>
  C7, at an input where the code does otherwise. The query is \<^verbatim>\<open>a,b\<close> with the default
  concurrency 10, so two workers run; \<^verbatim>\<open>Search\<close> fails for \<^verbatim>\<open>b\<close>. The workers take \<^verbatim>\<open>a\<close> and
  \<^verbatim>\<open>b\<close>, the collector receives and appends the result of \<^verbatim>\<open>a\<close>, then receives the result of
  \<^verbatim>\<open>b\<close>; main reads \<^verbatim>\<open>results\<close> before the collector appends it. The status is 0 and the line
  of \<^verbatim>\<open>a\<close> is printed, but nothing is logged for \<^verbatim>\<open>b\<close>. When the collector appends in time the
  failure is logged; when the results arrive in the other order the line of \<^verbatim>\<open>a\<close> is the
  one that is lost; with concurrency 1 nothing is lost.
\<close>

theorem search_failure_log_is_lost:
  "queryTerms ''a,b'' = [''a'', ''b''] \<and>
   effective_concurrency 10 (length (queryTerms ''a,b'')) = 2 \<and>
   Search FlakyBackend (reverse ''b'') () = Inr ([], Some (Error ''timeout'')) \<and>
   run_queries FlakyBackend example_Marshal TrimSpace_ascii ''a,b'' 10 False
     [Take 0, Take 1, Emit 0, Append, Emit 1] ()
     = Some \<lparr>exit_status = 0, out_lines = [''a: v'' @ [CHR 0x0A]], log_lines = [],
             search_calls = [''a'', ''b'']\<rparr> \<and>
   run_queries FlakyBackend example_Marshal TrimSpace_ascii ''a,b'' 10 False
     [Take 0, Take 1, Emit 0, Append, Emit 1, Append] ()
     = Some \<lparr>exit_status = 0, out_lines = [''a: v'' @ [CHR 0x0A]],
             log_lines = [LogSearchFailed ''b'' (Error ''timeout'')],
             search_calls = [''a'', ''b'']\<rparr> \<and>
   run_queries FlakyBackend example_Marshal TrimSpace_ascii ''a,b'' 10 False
     [Take 0, Take 1, Emit 1, Append, Emit 0] ()
     = Some \<lparr>exit_status = 0, out_lines = [],
             log_lines = [LogSearchFailed ''b'' (Error ''timeout'')],
             search_calls = [''a'', ''b'']\<rparr> \<and>
   run_queries FlakyBackend example_Marshal TrimSpace_ascii ''a,b'' 1 False [] ()
     = Some \<lparr>exit_status = 0, out_lines = [''a: v'' @ [CHR 0x0A]],
             log_lines = [LogSearchFailed ''b'' (Error ''timeout'')],
             search_calls = [''a'', ''b'']\<rparr>"
  by code_simp

text \<open>
  C8, at an input where the code does otherwise. The database holds the value
  \<^verbatim>\<open>" 1.2.3.4 "\<close> under the key of \<^verbatim>\<open>sub.example.com\<close>. In plain mode the line printed has the
  value trimmed; in JSON mode the value given to \<^verbatim>\<open>Marshal\<close>, and so printed, keeps its
  spaces.
\<close>

theorem json_output_value_is_not_trimmed:
  "BBoltBackend_Search (reverse ''example.com'') example_db
     = Inr ([\<lparr>Key = reverse ''sub.example.com'', Value = '' 1.2.3.4 ''\<rparr>], None) \<and>
   map_option out_lines
     (run_queries BBoltBackend example_Marshal TrimSpace_ascii ''example.com'' 10 False [] example_db)
     = Some [''sub.example.com: 1.2.3.4'' @ [CHR 0x0A]] \<and>
   map_option out_lines
     (run_queries BBoltBackend example_Marshal TrimSpace_ascii ''example.com'' 10 True [] example_db)
     = Some [fst (example_Marshal (JSONLine ''example.com'' ''sub.example.com'' '' 1.2.3.4 ''))
             @ [CHR 0x0A]] \<and>
   TrimSpace_ascii '' 1.2.3.4 '' = ''1.2.3.4''"
  by code_simp

subsection \<open>Search in \<^verbatim>\<open>bbolt.go\<close>\<close>

lemma failed_Put_unchanged:
  "fst (BBoltBackend_Put recs db) \<noteq> None \<Longrightarrow> snd (BBoltBackend_Put recs db) = db"
  by (auto simp: BBoltBackend_Put_def Let_def split: if_splits sum.splits option.splits)

lemma failed_Puts_unchanged:
  "list_all (\<lambda>recs. fst (BBoltBackend_Put recs db) \<noteq> None) bs \<Longrightarrow>
   foldl (\<lambda>d recs. snd (BBoltBackend_Put recs d)) db bs = db"
  by (induction bs) (simp_all add: failed_Put_unchanged)

lemma Put_creates_bucket:
  "opened db \<Longrightarrow> fst (BBoltBackend_Put recs db) = None \<Longrightarrow>
   opened (snd (BBoltBackend_Put recs db)) \<and> bucket (snd (BBoltBackend_Put recs db)) \<noteq> None"
  by (auto simp: BBoltBackend_Put_def Let_def split: if_splits sum.splits option.splits)

text \<open>
  C9. \<^verbatim>\<open>Search\<close> on an open database without the bucket panics with a nil dereference; it
  returns neither records nor an error. That is the state of a new database, and of a
  database without the bucket after any number of \<^verbatim>\<open>Put\<close> calls that all failed, since a
  failed \<^verbatim>\<open>Put\<close> changes nothing. After a \<^verbatim>\<open>Put\<close> that succeeded \<^verbatim>\<open>Search\<close> does not panic. In
  main with one worker, a query on a new database ends the process in that panic at the
  first term.
\<close>

theorem search_without_bucket_panics:
  "(opened db \<and> bucket db = None \<longrightarrow> BBoltBackend_Search bprefix db = Inl nil_dereference) \<and>
   BBoltBackend_Search bprefix bbolt_new = Inl nil_dereference \<and>
   (fst (BBoltBackend_Put recs db) \<noteq> None \<longrightarrow> snd (BBoltBackend_Put recs db) = db) \<and>
   (opened db \<and> bucket db = None \<and>
    list_all (\<lambda>recs. fst (BBoltBackend_Put recs db) \<noteq> None) bs \<longrightarrow>
      BBoltBackend_Search bprefix (foldl (\<lambda>d recs. snd (BBoltBackend_Put recs d)) db bs)
        = Inl nil_dereference) \<and>
   (opened db \<and> fst (BBoltBackend_Put recs db) = None \<longrightarrow>
      \<not> isl (BBoltBackend_Search bprefix (snd (BBoltBackend_Put recs db)))) \<and>
   (queryTerms q \<noteq> [] \<and> effective_concurrency queryConcurrency (length (queryTerms q)) = 1 \<longrightarrow>
      run_queries BBoltBackend Marshal TrimSpace q queryConcurrency jsonFmt sched bbolt_new
        = Some \<lparr>exit_status = 2, out_lines = [], log_lines = [],
                search_calls = [reverse (hd (queryTerms q))]\<rparr>)"
proof -
  have a: "opened db \<and> bucket db = None \<longrightarrow> BBoltBackend_Search bprefix db = Inl nil_dereference"
    for db bprefix
    by (simp add: BBoltBackend_Search_def)
  have b: "BBoltBackend_Search bprefix bbolt_new = Inl nil_dereference" for bprefix
    by (simp add: BBoltBackend_Search_def bbolt_new_def)
  have c: "fst (BBoltBackend_Put recs db) \<noteq> None \<longrightarrow> snd (BBoltBackend_Put recs db) = db"
    using failed_Put_unchanged by blast
  have d: "opened db \<and> bucket db = None \<and>
    list_all (\<lambda>recs. fst (BBoltBackend_Put recs db) \<noteq> None) bs \<longrightarrow>
      BBoltBackend_Search bprefix (foldl (\<lambda>d recs. snd (BBoltBackend_Put recs d)) db bs)
        = Inl nil_dereference"
    using failed_Puts_unchanged[of db bs] a[of db bprefix] by auto
  have e: "opened db \<and> fst (BBoltBackend_Put recs db) = None \<longrightarrow>
      \<not> isl (BBoltBackend_Search bprefix (snd (BBoltBackend_Put recs db)))"
  proof (intro impI)
    assume h: "opened db \<and> fst (BBoltBackend_Put recs db) = None"
    with Put_creates_bucket[of db recs]
    have "opened (snd (BBoltBackend_Put recs db))" "bucket (snd (BBoltBackend_Put recs db)) \<noteq> None"
      by simp_all
    then show "\<not> isl (BBoltBackend_Search bprefix (snd (BBoltBackend_Put recs db)))"
      by (auto simp: BBoltBackend_Search_def)
  qed
  have f: "queryTerms q \<noteq> [] \<and> effective_concurrency queryConcurrency (length (queryTerms q)) = 1 \<longrightarrow>
      run_queries BBoltBackend Marshal TrimSpace q queryConcurrency jsonFmt sched bbolt_new
        = Some \<lparr>exit_status = 2, out_lines = [], log_lines = [],
                search_calls = [reverse (hd (queryTerms q))]\<rparr>"
  proof (intro impI)
    assume h: "queryTerms q \<noteq> [] \<and> effective_concurrency queryConcurrency (length (queryTerms q)) = 1"
    then obtain t ts where ts: "queryTerms q = t # ts" by (cases "queryTerms q") auto
    have s: "search_each BBoltBackend bbolt_new (t # ts) ([], []) = ([reverse t], Inl nil_dereference)"
      using b[of "reverse t"] by (simp add: BBoltBackend_def)
    show "run_queries BBoltBackend Marshal TrimSpace q queryConcurrency jsonFmt sched bbolt_new
        = Some \<lparr>exit_status = 2, out_lines = [], log_lines = [],
                search_calls = [reverse (hd (queryTerms q))]\<rparr>"
      using h s unfolding run_queries_def Let_def ts by simp
  qed
  show ?thesis using a b c d e f by (intro conjI)
qed

theorem search_without_bucket_panics_witness:
  "opened bbolt_new \<and> bucket bbolt_new = None \<and>
   BBoltBackend_Search ''moc'' bbolt_new = Inl nil_dereference \<and>
   fst (BBoltBackend_Put [\<lparr>Key = [], Value = ''v''\<rparr>] bbolt_new) = Some ErrKeyRequired \<and>
   snd (BBoltBackend_Put [\<lparr>Key = [], Value = ''v''\<rparr>] bbolt_new) = bbolt_new \<and>
   BBoltBackend_Search ''moc''
     (foldl (\<lambda>d recs. snd (BBoltBackend_Put recs d)) bbolt_new [[\<lparr>Key = [], Value = ''v''\<rparr>]])
     = Inl nil_dereference \<and>
   fst (BBoltBackend_Put [\<lparr>Key = ''moc.a'', Value = ''1''\<rparr>] bbolt_new) = None \<and>
   BBoltBackend_Search ''moc'' (snd (BBoltBackend_Put [\<lparr>Key = ''moc.a'', Value = ''1''\<rparr>] bbolt_new))
     = Inr ([\<lparr>Key = ''moc.a'', Value = ''1''\<rparr>], None) \<and>
   \<not> isl (BBoltBackend_Search ''moc'' (snd (BBoltBackend_Put [\<lparr>Key = ''moc.a'', Value = ''1''\<rparr>] bbolt_new))) \<and>
   queryTerms ''a.com'' = [''a.com''] \<and>
   effective_concurrency 10 (length (queryTerms ''a.com'')) = 1 \<and>
   run_queries BBoltBackend example_Marshal TrimSpace_ascii ''a.com'' 10 False [] bbolt_new
     = Some \<lparr>exit_status = 2, out_lines = [], log_lines = [], search_calls = [''moc.a'']\<rparr>"
proof -
  have o: "opened bbolt_new" "bucket bbolt_new = None" by (simp_all add: bbolt_new_def)
  have p1: "fst (BBoltBackend_Put [\<lparr>Key = [], Value = ''v''\<rparr>] bbolt_new) = Some ErrKeyRequired"
    by code_simp
  have p2: "fst (BBoltBackend_Put [\<lparr>Key = ''moc.a'', Value = ''1''\<rparr>] bbolt_new) = None"
    by code_simp
  have s2: "BBoltBackend_Search ''moc'' (snd (BBoltBackend_Put [\<lparr>Key = ''moc.a'', Value = ''1''\<rparr>] bbolt_new))
     = Inr ([\<lparr>Key = ''moc.a'', Value = ''1''\<rparr>], None)"
    by code_simp
  have q: "queryTerms ''a.com'' = [''a.com'']" by code_simp
  have c: "effective_concurrency 10 (length (queryTerms ''a.com'')) = 1" by code_simp
  have rv: "reverse ''a.com'' = ''moc.a''" by code_simp
  note t1 = search_without_bucket_panics[of bbolt_new "''moc''" "[\<lparr>Key = [], Value = ''v''\<rparr>]"
      "[[\<lparr>Key = [], Value = ''v''\<rparr>]]" "''a.com''" 10 example_Marshal TrimSpace_ascii False "[]"]
  note t2 = search_without_bucket_panics[of bbolt_new "''moc''" "[\<lparr>Key = ''moc.a'', Value = ''1''\<rparr>]"
      "[]" "''a.com''" 10 example_Marshal TrimSpace_ascii False "[]"]
  have a: "BBoltBackend_Search ''moc'' bbolt_new = Inl nil_dereference"
    using t1[THEN conjunct1] o by simp
  have b: "snd (BBoltBackend_Put [\<lparr>Key = [], Value = ''v''\<rparr>] bbolt_new) = bbolt_new"
    using t1[THEN conjunct2, THEN conjunct2, THEN conjunct1] p1 by simp
  have d: "BBoltBackend_Search ''moc''
     (foldl (\<lambda>d recs. snd (BBoltBackend_Put recs d)) bbolt_new [[\<lparr>Key = [], Value = ''v''\<rparr>]])
     = Inl nil_dereference"
    using t1[THEN conjunct2, THEN conjunct2, THEN conjunct2, THEN conjunct1] o p1 by simp
  have e: "\<not> isl (BBoltBackend_Search ''moc'' (snd (BBoltBackend_Put [\<lparr>Key = ''moc.a'', Value = ''1''\<rparr>] bbolt_new)))"
    using t2[THEN conjunct2, THEN conjunct2, THEN conjunct2, THEN conjunct2, THEN conjunct1] o p2 by simp
  have f: "run_queries BBoltBackend example_Marshal TrimSpace_ascii ''a.com'' 10 False [] bbolt_new
     = Some \<lparr>exit_status = 2, out_lines = [], log_lines = [], search_calls = [''moc.a'']\<rparr>"
    using t1[THEN conjunct2, THEN conjunct2, THEN conjunct2, THEN conjunct2, THEN conjunct2] c
    unfolding q by (simp add: rv)
  show ?thesis using o a p1 b d p2 s2 e q c f by (intro conjI)
qed

subsection \<open>Search in \<^verbatim>\<open>badgerdb.go\<close>\<close>

lemma badger_iterate_spec:
  "badger_iterate bprefix kvs recs
   = (recs @ map item_record (takeWhile (readable bprefix) kvs),
      (case dropWhile (readable bprefix) kvs of
         [] \<Rightarrow> None
       | kv # rest \<Rightarrow> (if prefix bprefix (fst kv) then (case snd kv of Inl e \<Rightarrow> Some e | Inr val \<Rightarrow> None) else None)))"
proof (induction kvs arbitrary: recs)
  case Nil
  then show ?case by simp
next
  case (Cons kv kvs)
  obtain k v where kv: "kv = (k, v)" by (cases kv)
  show ?case
  proof (cases "prefix bprefix k")
    case False
    then show ?thesis by (simp add: kv readable_def)
  next
    case True
    show ?thesis
    proof (cases v)
      case (Inl e)
      then show ?thesis using True by (simp add: kv readable_def)
    next
      case (Inr val)
      then show ?thesis using True Cons.IH[of "recs @ [\<lparr>Key = k, Value = val\<rparr>]"]
        by (simp add: kv readable_def item_record_def)
    qed
  qed
qed

text \<open>
  C10. For every database and prefix \<^verbatim>\<open>Search\<close> returns the records gathered and a \<^verbatim>\<open>nil\<close>
  error, whatever \<^verbatim>\<open>db.View\<close> returned. On a closed database \<^verbatim>\<open>db.View\<close> returns an error
  and no record is gathered. Otherwise the records are those of the items from the first
  key not below the prefix, as long as the key has the prefix and the value can be copied;
  when the copy of an item with the prefix fails, \<^verbatim>\<open>db.View\<close> returns that error.
\<close>

theorem badger_search_discards_view_error:
  "BadgerDBBackend_Search bprefix db = Inr (fst (badger_View bprefix db), None) \<and>
   (is_closed db \<longrightarrow> badger_View bprefix db = ([], Some ErrDBClosed)) \<and>
   (\<not> is_closed db \<longrightarrow>
      fst (badger_View bprefix db)
        = map item_record (takeWhile (readable bprefix) (dropWhile (\<lambda>kv. fst kv < bprefix) (items db)))) \<and>
   (\<not> is_closed db \<and>
    dropWhile (readable bprefix) (dropWhile (\<lambda>kv. fst kv < bprefix) (items db)) = (k, Inl e) # rest \<and>
    prefix bprefix k \<longrightarrow>
      snd (badger_View bprefix db) = Some e)"
proof -
  have a: "BadgerDBBackend_Search bprefix db = Inr (fst (badger_View bprefix db), None)"
    by (cases "badger_View bprefix db") (simp add: BadgerDBBackend_Search_def)
  have b: "is_closed db \<longrightarrow> badger_View bprefix db = ([], Some ErrDBClosed)"
    by (simp add: badger_View_def)
  have c: "\<not> is_closed db \<longrightarrow>
      fst (badger_View bprefix db)
        = map item_record (takeWhile (readable bprefix) (dropWhile (\<lambda>kv. fst kv < bprefix) (items db)))"
    by (simp add: badger_View_def badger_iterate_spec)
  have d: "\<not> is_closed db \<and>
    dropWhile (readable bprefix) (dropWhile (\<lambda>kv. fst kv < bprefix) (items db)) = (k, Inl e) # rest \<and>
    prefix bprefix k \<longrightarrow>
      snd (badger_View bprefix db) = Some e"
    by (simp add: badger_View_def badger_iterate_spec)
  show ?thesis using a b c d by (intro conjI)
qed

theorem badger_search_discards_view_error_witness:
  "\<not> is_closed example_badger \<and>
   dropWhile (readable ''moc'') (dropWhile (\<lambda>kv. fst kv < ''moc'') (items example_badger))
     = [(''moc.b'', Inl (Error ''read failed'')), (''moc.c'', Inr ''3'')] \<and>
   prefix ''moc'' ''moc.b'' \<and>
   snd (badger_View ''moc'' example_badger) = Some (Error ''read failed'') \<and>
   fst (badger_View ''moc'' example_badger) = [\<lparr>Key = ''moc.a'', Value = ''1''\<rparr>] \<and>
   BadgerDBBackend_Search ''moc'' example_badger = Inr ([\<lparr>Key = ''moc.a'', Value = ''1''\<rparr>], None) \<and>
   is_closed (example_badger\<lparr>is_closed := True\<rparr>) \<and>
   badger_View ''moc'' (example_badger\<lparr>is_closed := True\<rparr>) = ([], Some ErrDBClosed) \<and>
   BadgerDBBackend_Search ''moc'' (example_badger\<lparr>is_closed := True\<rparr>) = Inr ([], None)"
proof -
  have o: "\<not> is_closed example_badger" by (simp add: example_badger_def)
  have dw: "dropWhile (readable ''moc'') (dropWhile (\<lambda>kv. fst kv < ''moc'') (items example_badger))
     = [(''moc.b'', Inl (Error ''read failed'')), (''moc.c'', Inr ''3'')]"
    by code_simp
  have pf: "prefix ''moc'' ''moc.b''" by code_simp
  have tw: "map item_record (takeWhile (readable ''moc'') (dropWhile (\<lambda>kv. fst kv < ''moc'') (items example_badger)))
     = [\<lparr>Key = ''moc.a'', Value = ''1''\<rparr>]"
    by code_simp
  have cl: "is_closed (example_badger\<lparr>is_closed := True\<rparr>)" by simp
  note t = badger_search_discards_view_error[of "''moc''" example_badger "''moc.b''" "Error ''read failed''"
      "[(''moc.c'', Inr ''3'')]"]
  note u = badger_search_discards_view_error[of "''moc''" "example_badger\<lparr>is_closed := True\<rparr>"]
  have e: "snd (badger_View ''moc'' example_badger) = Some (Error ''read failed'')"
    using t[THEN conjunct2, THEN conjunct2, THEN conjunct2] o dw pf by simp
  have f: "fst (badger_View ''moc'' example_badger) = [\<lparr>Key = ''moc.a'', Value = ''1''\<rparr>]"
    using t[THEN conjunct2, THEN conjunct2, THEN conjunct1] o tw by simp
  have g: "BadgerDBBackend_Search ''moc'' example_badger = Inr ([\<lparr>Key = ''moc.a'', Value = ''1''\<rparr>], None)"
    using t[THEN conjunct1] f by simp
  have h: "badger_View ''moc'' (example_badger\<lparr>is_closed := True\<rparr>) = ([], Some ErrDBClosed)"
    using u[THEN conjunct2, THEN conjunct1] cl by simp
  have i: "BadgerDBBackend_Search ''moc'' (example_badger\<lparr>is_closed := True\<rparr>) = Inr ([], None)"
    using u[THEN conjunct1] h by simp
  show ?thesis using o dw pf e f g cl h i by (intro conjI)
qed

end
